theory Spec2Isabelle
  imports Complex_Main "HOL-Library.Word" "HOL-Library.Log_Nat"
begin

unbundle bit_operations_syntax

section \<open>Hashes and nodes\<close>

text \<open>
  The Merkle mountain range of \<^verbatim>\<open>mmr.h\<close> (in \<^verbatim>\<open>src/verushash/dependencies.go\<close>).
  A \<^verbatim>\<open>uint256\<close> is a 256-bit word; \<^verbatim>\<open>uint256()\<close> is the null hash \<open>0\<close>.
  The hash writer (\<^verbatim>\<open>HASHALGOWRITER\<close>) is outside the repository: writing two
  hashes into a fresh writer and taking \<^verbatim>\<open>GetHash()\<close> is the parameter \<open>H\<close>.

  A \<^verbatim>\<open>uint64_t\<close> or \<^verbatim>\<open>uint32_t\<close> is a natural number below \<open>2 ^ 64\<close> or
  \<open>2 ^ 32\<close>; every operation that can leave that range has its wrap-around written
  out. A read that throws (\<^verbatim>\<open>std::__throw_length_error\<close>), a failed \<^verbatim>\<open>assert\<close> and
  an access outside a \<^verbatim>\<open>std::vector\<close> (undefined in C++) are the value \<open>None\<close>.
\<close>

type_synonym uint256 = "256 word"

type_synonym hasher = "uint256 \<Rightarrow> uint256 \<Rightarrow> uint256"

datatype CMMRNode = CMMRNode (hash: uint256)

datatype CMMRPowerNode = CMMRPowerNode (phash: uint256) (power: uint256)

text \<open>
  The classes are templates over the node type. What a template uses of its node type
  is a record of operations; \<open>CDefaultMMRNode\<close> and \<open>CDefaultMMRPowerNode\<close> below are
  the two instances of the source.
\<close>

record 'n node_ops =
  node_hash :: "'n \<Rightarrow> uint256"
  default_node :: 'n
  CreateParentNode :: "'n \<Rightarrow> 'n \<Rightarrow> 'n option"
  GetProofHash :: "'n \<Rightarrow> 'n \<Rightarrow> uint256 list"
  GetLeafHash :: "'n \<Rightarrow> uint256 list"
  GetExtraHashCount :: nat
  GetBranchType :: nat

definition BRANCH_INVALID :: nat where "BRANCH_INVALID = 0"
definition BRANCH_BTC :: nat where "BRANCH_BTC = 1"
definition BRANCH_MMRBLAKE_NODE :: nat where "BRANCH_MMRBLAKE_NODE = 2"
definition BRANCH_MMRBLAKE_POWERNODE :: nat where "BRANCH_MMRBLAKE_POWERNODE = 3"
definition BRANCH_ETH :: nat where "BRANCH_ETH = 4"
definition BRANCH_MULTIPART :: nat where "BRANCH_MULTIPART = 5"

definition CDefaultMMRNode :: "hasher \<Rightarrow> CMMRNode node_ops" where
  "CDefaultMMRNode H =
     \<lparr> node_hash = hash,
       default_node = CMMRNode 0,
       CreateParentNode = (\<lambda>l nRight. Some (CMMRNode (H (hash l) (hash nRight)))),
       GetProofHash = (\<lambda>n opposite. [hash n]),
       GetLeafHash = (\<lambda>n. []),
       GetExtraHashCount = 0,
       GetBranchType = BRANCH_MMRBLAKE_NODE \<rparr>"

definition Work :: "CMMRPowerNode \<Rightarrow> uint256" where
  "Work n = drop_bit 128 (push_bit 128 (power n))"

definition Stake :: "CMMRPowerNode \<Rightarrow> uint256" where
  "Stake n = drop_bit 128 (power n)"

text \<open>The \<^verbatim>\<open>assert\<close> on the two sums is the \<open>None\<close> branch.\<close>

definition PowerNode_CreateParentNode ::
  "hasher \<Rightarrow> CMMRPowerNode \<Rightarrow> CMMRPowerNode \<Rightarrow> CMMRPowerNode option" where
  "PowerNode_CreateParentNode H l nRight =
     (let work = Work l + Work nRight;
          stake = Stake l + Stake nRight
      in if drop_bit 128 (push_bit 128 work) = work \<and> drop_bit 128 (push_bit 128 stake) = stake
         then (let nodePower = push_bit 128 stake OR work;
                   preHash = H (phash l) (phash nRight)
               in Some (CMMRPowerNode (H preHash nodePower) nodePower))
         else None)"

definition PowerNode_GetProofHash :: "CMMRPowerNode \<Rightarrow> CMMRPowerNode \<Rightarrow> uint256 list" where
  "PowerNode_GetProofHash n proving =
     [phash n, push_bit 128 (Stake n + Stake proving) OR (Work n + Work proving)]"

definition CDefaultMMRPowerNode :: "hasher \<Rightarrow> CMMRPowerNode node_ops" where
  "CDefaultMMRPowerNode H =
     \<lparr> node_hash = phash,
       default_node = CMMRPowerNode 0 0,
       CreateParentNode = PowerNode_CreateParentNode H,
       GetProofHash = PowerNode_GetProofHash,
       GetLeafHash = (\<lambda>n. [power n]),
       GetExtraHashCount = 1,
       GetBranchType = BRANCH_MMRBLAKE_POWERNODE \<rparr>"

section \<open>CChunkedLayer\<close>

text \<open>
  \<open>vec_at\<close> is \<^verbatim>\<open>std::vector::operator[]\<close>, \<open>vec_resize\<close> is
  \<^verbatim>\<open>std::vector::resize\<close> (new elements value-initialised to \<open>d\<close>), \<open>on_back\<close> changes
  \<^verbatim>\<open>back()\<close> in place.
\<close>

definition vec_at :: "'a list \<Rightarrow> nat \<Rightarrow> 'a option" where
  "vec_at xs i = (if i < length xs then Some (xs ! i) else None)"

definition vec_resize :: "'a \<Rightarrow> nat \<Rightarrow> 'a list \<Rightarrow> 'a list" where
  "vec_resize d n xs = take n xs @ replicate (n - length xs) d"

definition on_back :: "('a \<Rightarrow> 'a) \<Rightarrow> 'a list \<Rightarrow> 'a list option" where
  "on_back f xs = (if xs = [] then None else Some (butlast xs @ [f (last xs)]))"

record 'n CChunkedLayer =
  vSize :: nat
  nodes :: "'n list list"

definition CHUNK_SHIFT :: nat where "CHUNK_SHIFT = 9"

definition chunkSize :: nat where "chunkSize = push_bit CHUNK_SHIFT 1"

definition chunkMask :: nat where "chunkMask = chunkSize - 1"

definition empty_layer :: "'n CChunkedLayer" where
  "empty_layer = \<lparr> vSize = 0, nodes = [] \<rparr>"

definition layer_size :: "'n CChunkedLayer \<Rightarrow> nat" where
  "layer_size l = vSize l"

text \<open>\<^verbatim>\<open>operator[]\<close>: the length error for \<open>idx \<ge> vSize\<close>, else the chunk read.\<close>

definition layer_at :: "'n CChunkedLayer \<Rightarrow> nat \<Rightarrow> 'n option" where
  "layer_at l idx =
     (if idx < vSize l
      then (case vec_at (nodes l) (drop_bit CHUNK_SHIFT idx) of
              None \<Rightarrow> None
            | Some chunk \<Rightarrow> vec_at chunk (idx AND chunkMask))
      else None)"

definition push_back :: "'n CChunkedLayer \<Rightarrow> 'n \<Rightarrow> 'n CChunkedLayer option" where
  "push_back l node =
     (let vs = (vSize l + 1) mod 2 ^ 64;
          ns = (if vs AND chunkMask = 1 then nodes l @ [[]] else nodes l)
      in case on_back (\<lambda>c. c @ [node]) ns of
           None \<Rightarrow> None
         | Some ns' \<Rightarrow> Some \<lparr> vSize = vs, nodes = ns' \<rparr>)"

definition clear :: "'n CChunkedLayer \<Rightarrow> 'n CChunkedLayer" where
  "clear l = \<lparr> vSize = 0, nodes = [] \<rparr>"

text \<open>
  The loop of \<^verbatim>\<open>resize\<close>: it runs from the old number of chunks to the new one and
  resizes \<^verbatim>\<open>nodes.back()\<close> in every round.
\<close>

function resize_loop :: "'n \<Rightarrow> nat \<Rightarrow> nat \<Rightarrow> nat \<Rightarrow> 'n list list \<Rightarrow> 'n list list option" where
  "resize_loop d newSize chunksSize i ns =
     (if i \<le> chunksSize
      then (case (if i < chunksSize
                  then on_back (vec_resize d chunkSize) ns
                  else on_back (vec_resize d (((newSize - 1) AND chunkMask) + 1)) ns) of
              None \<Rightarrow> None
            | Some ns' \<Rightarrow> resize_loop d newSize chunksSize (i + 1) ns')
      else Some ns)"
  by pat_completeness auto
termination
  by (relation "measure (\<lambda>(d, newSize, chunksSize, i, ns). chunksSize + 1 - i)") auto

declare resize_loop.simps [simp del]

definition resize :: "'n \<Rightarrow> 'n CChunkedLayer \<Rightarrow> nat \<Rightarrow> 'n CChunkedLayer option" where
  "resize d l newSize =
     (if newSize = 0 then Some (clear l)
      else (let chunksSize = drop_bit CHUNK_SHIFT (newSize - 1) + 1;
                ns = vec_resize [] chunksSize (nodes l);
                start = (if layer_size l \<noteq> 0
                         then drop_bit CHUNK_SHIFT (layer_size l - 1) + 1 else 1)
            in case resize_loop d newSize chunksSize start ns of
                 None \<Rightarrow> None
               | Some ns' \<Rightarrow>
                   Some \<lparr> vSize = (push_bit CHUNK_SHIFT (length ns' - 1)
                                   + ((newSize - 1) AND chunkMask) + 1) mod 2 ^ 64,
                          nodes = ns' \<rparr>))"

section \<open>CMerkleMountainRange\<close>

record 'n CMerkleMountainRange =
  upperNodes :: "'n CChunkedLayer list"
  layer0 :: "'n CChunkedLayer"

definition empty_mmr :: "'n CMerkleMountainRange" where
  "empty_mmr = \<lparr> upperNodes = [], layer0 = empty_layer \<rparr>"

definition mmr_size :: "'n CMerkleMountainRange \<Rightarrow> nat" where
  "mmr_size m = layer_size (layer0 m)"

definition height :: "'n CMerkleMountainRange \<Rightarrow> nat" where
  "height m = (if layer_size (layer0 m) \<noteq> 0 then (length (upperNodes m) + 1) mod 2 ^ 32 else 0)"

text \<open>
  The loop of \<^verbatim>\<open>Add\<close>. \<open>layerSize\<close>, \<open>newSizeAbove\<close>, \<open>curSizeAbove\<close> and \<open>idx\<close>
  are \<^verbatim>\<open>uint32_t\<close>.
\<close>

function Add_loop ::
  "'n node_ops \<Rightarrow> 'n CMerkleMountainRange \<Rightarrow> nat \<Rightarrow> nat \<Rightarrow> 'n CMerkleMountainRange option" where
  "Add_loop ops m ht layerSize =
     (if ht \<le> length (upperNodes m) \<and> layerSize > 1
      then (let newSizeAbove = drop_bit 1 layerSize;
                un = (if ht = length (upperNodes m)
                      then vec_resize empty_layer (length (upperNodes m) + 1) (upperNodes m)
                      else upperNodes m)
            in case vec_at un ht of
                 None \<Rightarrow> None
               | Some la \<Rightarrow>
                   (let curSizeAbove = layer_size la mod 2 ^ 32
                    in if layerSize AND 1 = 0 \<and> newSizeAbove > curSizeAbove
                       then (let idx = layerSize - 2
                             in case (if ht \<noteq> 0 then vec_at un (ht - 1) else Some (layer0 m)) of
                                  None \<Rightarrow> None
                                | Some lb \<Rightarrow>
                                    (case layer_at lb idx of
                                       None \<Rightarrow> None
                                     | Some nl \<Rightarrow>
                                         (case layer_at lb (idx + 1) of
                                            None \<Rightarrow> None
                                          | Some nr \<Rightarrow>
                                              (case CreateParentNode ops nl nr of
                                                 None \<Rightarrow> None
                                               | Some par \<Rightarrow>
                                                   (case push_back la par of
                                                      None \<Rightarrow> None
                                                    | Some la1 \<Rightarrow>
                                                        Add_loop ops (m\<lparr>upperNodes := un[ht := la1]\<rparr>)
                                                          (ht + 1) newSizeAbove)))))
                       else Add_loop ops (m\<lparr>upperNodes := un\<rparr>) (ht + 1) newSizeAbove))
      else Some m)"
  by pat_completeness auto
termination
  by (relation "measure (\<lambda>(ops, m, ht, layerSize). layerSize)")
     (auto simp: drop_bit_eq_div)

declare Add_loop.simps [simp del]

text \<open>\<^verbatim>\<open>Add\<close> returns the range (changed in place in the source) with the new index.\<close>

definition Add ::
  "'n node_ops \<Rightarrow> 'n CMerkleMountainRange \<Rightarrow> 'n \<Rightarrow> ('n CMerkleMountainRange \<times> nat) option" where
  "Add ops m leaf =
     (case push_back (layer0 m) leaf of
        None \<Rightarrow> None
      | Some l0 \<Rightarrow>
          (case Add_loop ops (m\<lparr>layer0 := l0\<rparr>) 0 (layer_size l0 mod 2 ^ 32) of
             None \<Rightarrow> None
           | Some m' \<Rightarrow> Some (m', (layer_size (layer0 m') + 2 ^ 64 - 1) mod 2 ^ 64)))"

text \<open>A range built by appending the leaves in order to an empty range.\<close>

fun Add_all ::
  "'n node_ops \<Rightarrow> 'n CMerkleMountainRange \<Rightarrow> 'n list \<Rightarrow> 'n CMerkleMountainRange option" where
  "Add_all ops m [] = Some m"
| "Add_all ops m (x # xs) =
     (case Add ops m x of None \<Rightarrow> None | Some (m', i) \<Rightarrow> Add_all ops m' xs)"

definition GetNode :: "'n node_ops \<Rightarrow> 'n CMerkleMountainRange \<Rightarrow> nat \<Rightarrow> nat \<Rightarrow> 'n option" where
  "GetNode ops m Height Index =
     (let layers = height m
      in if Height < layers
         then (if Height \<noteq> 0
               then (case vec_at (upperNodes m) (Height - 1) of
                       None \<Rightarrow> None
                     | Some lay \<Rightarrow>
                         if Index < layer_size lay then layer_at lay Index
                         else Some (default_node ops))
               else if Index < layer_size (layer0 m) then layer_at (layer0 m) Index
               else Some (default_node ops))
         else Some (default_node ops))"

text \<open>
  \<open>halving v\<close> is the loop \<^verbatim>\<open>while (v) { sizes.push_back(v); v >>= 1; }\<close> of
  \<^verbatim>\<open>Truncate\<close>, of the view's constructors and of \<^verbatim>\<open>GetProofBits\<close>.
\<close>

function halving :: "nat \<Rightarrow> nat list" where
  "halving v = (if v = 0 then [] else v # halving (drop_bit 1 v))"
  by pat_completeness auto
termination
  by (relation "measure (\<lambda>v. v)") (auto simp: drop_bit_eq_div)

declare halving.simps [simp del]

function Truncate_loop ::
  "'n \<Rightarrow> nat list \<Rightarrow> nat \<Rightarrow> 'n CChunkedLayer list \<Rightarrow> 'n CChunkedLayer list option" where
  "Truncate_loop d sizes i un =
     (if i < length un
      then (case vec_at sizes (i + 1) of
              None \<Rightarrow> None
            | Some s \<Rightarrow>
                (case resize d (un ! i) s of
                   None \<Rightarrow> None
                 | Some l \<Rightarrow> Truncate_loop d sizes (i + 1) (un[i := l])))
      else Some un)"
  by pat_completeness auto
termination
  by (relation "measure (\<lambda>(d, sizes, i, un). length un - i)") auto

declare Truncate_loop.simps [simp del]

definition Truncate ::
  "'n node_ops \<Rightarrow> 'n CMerkleMountainRange \<Rightarrow> nat \<Rightarrow> 'n CMerkleMountainRange option" where
  "Truncate ops m newSize =
     (let curSize = mmr_size m
      in if newSize < curSize
         then (let maxSize = mmr_size m;
                   newSize1 = (if newSize > maxSize then maxSize else newSize);
                   sizes = newSize1 # halving (drop_bit 1 newSize1);
                   un = vec_resize empty_layer (length sizes - 1) (upperNodes m)
               in case resize (default_node ops) (layer0 m) (sizes ! 0) of
                    None \<Rightarrow> None
                  | Some l0 \<Rightarrow>
                      (case Truncate_loop (default_node ops) sizes 0 un of
                         None \<Rightarrow> None
                       | Some un' \<Rightarrow> Some \<lparr> upperNodes = un', layer0 = l0 \<rparr>))
         else Some m)"

section \<open>CMerkleMountainView\<close>

record 'n CMerkleMountainView =
  mmr :: "'n CMerkleMountainRange"
  sizes :: "nat list"
  peaks :: "'n list"
  peakMerkle :: "'n list list"

definition MountainView :: "'n CMerkleMountainRange \<Rightarrow> nat \<Rightarrow> 'n CMerkleMountainView" where
  "MountainView mountainRange viewSize =
     (let maxSize = mmr_size mountainRange;
          viewSize1 = (if viewSize > maxSize \<or> viewSize = 0 then maxSize else viewSize)
      in \<lparr> mmr = mountainRange,
           sizes = viewSize1 # halving (drop_bit 1 viewSize1),
           peaks = [],
           peakMerkle = [] \<rparr>)"

definition view_size :: "'n CMerkleMountainView \<Rightarrow> nat" where
  "view_size v = (if length (sizes v) = 0 then 0 else sizes v ! 0)"

text \<open>
  The loop of \<^verbatim>\<open>CalcPeaks\<close>. \<^verbatim>\<open>(sizes[ht] + 1) >> 1\<close> and \<^verbatim>\<open>sizes[ht] - 1\<close> are
  \<^verbatim>\<open>uint64_t\<close> arithmetic; \<^verbatim>\<open>peaks.insert(peaks.begin(), n)\<close> is \<open>n # peaks\<close>.
\<close>

function CalcPeaks_loop ::
  "'n node_ops \<Rightarrow> 'n CMerkleMountainRange \<Rightarrow> nat list \<Rightarrow> nat \<Rightarrow> 'n list \<Rightarrow> 'n list option" where
  "CalcPeaks_loop ops m szs ht pks =
     (if ht < length szs
      then (if ht = length szs - 1 \<or> szs ! (ht + 1) < drop_bit 1 ((szs ! ht + 1) mod 2 ^ 64)
            then (case GetNode ops m ht ((szs ! ht + 2 ^ 64 - 1) mod 2 ^ 64) of
                    None \<Rightarrow> None
                  | Some n \<Rightarrow> CalcPeaks_loop ops m szs (ht + 1) (n # pks))
            else CalcPeaks_loop ops m szs (ht + 1) pks)
      else Some pks)"
  by pat_completeness auto
termination
  by (relation "measure (\<lambda>(ops, m, szs, ht, pks). length szs - ht)") auto

declare CalcPeaks_loop.simps [simp del]

definition CalcPeaks ::
  "'n node_ops \<Rightarrow> 'n CMerkleMountainView \<Rightarrow> bool \<Rightarrow> 'n CMerkleMountainView option" where
  "CalcPeaks ops v force =
     (if force \<or> (length (peaks v) = 0 \<and> view_size v \<noteq> 0)
      then (case CalcPeaks_loop ops (mmr v) (sizes v) 0 [] of
              None \<Rightarrow> None
            | Some pks \<Rightarrow> Some (v\<lparr>peaks := pks, peakMerkle := []\<rparr>))
      else Some v)"

text \<open>
  The inner loop of \<^verbatim>\<open>GetRoot\<close> over \<open>i < layerSize >> 1\<close>; \<open>src\<close> is the layer below
  (\<^verbatim>\<open>peaks\<close> or \<^verbatim>\<open>peakMerkle[layerIndex]\<close>).
\<close>

function GetRoot_pairs ::
  "'n node_ops \<Rightarrow> 'n list \<Rightarrow> nat \<Rightarrow> nat \<Rightarrow> 'n list \<Rightarrow> 'n list option" where
  "GetRoot_pairs ops src layerSize i back =
     (if i < drop_bit 1 layerSize
      then (case vec_at src (push_bit 1 i) of
              None \<Rightarrow> None
            | Some nl \<Rightarrow>
                (case vec_at src (push_bit 1 i + 1) of
                   None \<Rightarrow> None
                 | Some nr \<Rightarrow>
                     (case CreateParentNode ops nl nr of
                        None \<Rightarrow> None
                      | Some par \<Rightarrow> GetRoot_pairs ops src layerSize (i + 1) (back @ [par]))))
      else Some back)"
  by pat_completeness auto
termination
  by (relation "measure (\<lambda>(ops, src, layerSize, i, back). drop_bit 1 layerSize - i)") auto

declare GetRoot_pairs.simps [simp del]

lemma GetRoot_pairs_length:
  "GetRoot_pairs ops src layerSize i bk = Some out \<Longrightarrow>
   length out = length bk + (drop_bit 1 layerSize - i)"
proof (induction ops src layerSize i bk rule: GetRoot_pairs.induct)
  case (1 ops src layerSize i bk)
  show ?case
  proof (cases "i < drop_bit 1 layerSize")
    case True
    from "1.prems" True obtain nl nr par where
      nl: "vec_at src (push_bit 1 i) = Some nl" and
      nr: "vec_at src (push_bit 1 i + 1) = Some nr" and
      par: "CreateParentNode ops nl nr = Some par" and
      rec: "GetRoot_pairs ops src layerSize (i + 1) (bk @ [par]) = Some out"
      by (subst (asm) GetRoot_pairs.simps) (auto split: option.splits)
    from "1.IH" [OF True nl nr par rec] True show ?thesis by simp
  next
    case False
    with "1.prems" show ?thesis by (subst (asm) GetRoot_pairs.simps) simp
  qed
qed

text \<open>
  One round of the outer loop of \<^verbatim>\<open>GetRoot\<close>: the new layer, the pairs and then the
  element passed through when \<open>layerSize\<close> is odd (\<^verbatim>\<open>back()\<close> of the layer below).
\<close>

definition GetRoot_layer :: "'n node_ops \<Rightarrow> 'n list \<Rightarrow> nat \<Rightarrow> 'n list option" where
  "GetRoot_layer ops src layerSize =
     (let passThrough = (layerSize AND 1 \<noteq> 0)
      in case GetRoot_pairs ops src layerSize 0 [] of
           None \<Rightarrow> None
         | Some back \<Rightarrow>
             if passThrough
             then (if src = [] then None else Some (back @ [last src]))
             else Some back)"

lemma GetRoot_layer_length:
  "GetRoot_layer ops src layerSize = Some out \<Longrightarrow>
   length out = layerSize div 2 + layerSize mod 2"
  by (auto simp: GetRoot_layer_def Let_def and_one_eq drop_bit_eq_div
      split: option.splits if_splits dest!: GetRoot_pairs_length)

function GetRoot_loop ::
  "'n node_ops \<Rightarrow> 'n list \<Rightarrow> 'n list list \<Rightarrow> nat \<Rightarrow> nat \<Rightarrow> 'n list list option" where
  "GetRoot_loop ops pks pm layerNum layerSize =
     (if layerNum = 0 \<or> layerSize > 1
      then (let layerIndex = (if layerNum \<noteq> 0 then layerNum - 1 else 0)
            in case (if layerNum \<noteq> 0 then vec_at pm layerIndex else Some pks) of
                 None \<Rightarrow> None
               | Some src \<Rightarrow>
                   (case GetRoot_layer ops src layerSize of
                      None \<Rightarrow> None
                    | Some back \<Rightarrow>
                        GetRoot_loop ops pks (pm @ [back]) (layerNum + 1) (length back mod 2 ^ 32)))
      else Some pm)"
  by pat_completeness auto
termination
proof (relation "measure (\<lambda>(ops, pks, pm, layerNum, layerSize).
                    if layerNum = 0 then layerSize + 2 else layerSize)", goal_cases)
  case 1
  show ?case by simp
next
  case (2 ops pks pm layerNum layerSize layerIndex src bk)
  have len: "length bk = layerSize div 2 + layerSize mod 2"
    using 2 by (auto dest: GetRoot_layer_length)
  have le: "length bk mod 2 ^ 32 \<le> length bk" by simp
  have a: "layerSize div 2 + layerSize mod 2 \<le> layerSize" by presburger
  have b: "layerSize > 1 \<Longrightarrow> layerSize div 2 + layerSize mod 2 < layerSize" by presburger
  show ?case
  proof (cases "layerNum = 0")
    case True
    with len le a show ?thesis by simp
  next
    case False
    with 2(1) have "layerSize > 1" by simp
    with b len le False show ?thesis by simp
  qed
qed

declare GetRoot_loop.simps [simp del]

text \<open>\<^verbatim>\<open>GetRoot\<close> returns the view (peaks and peak merkle now cached) with the root hash.\<close>

definition root_of :: "'n node_ops \<Rightarrow> 'n list list \<Rightarrow> uint256 option" where
  "root_of ops pm =
     (if pm = [] then None
      else (case vec_at (last pm) 0 of None \<Rightarrow> None | Some n \<Rightarrow> Some (node_hash ops n)))"

definition GetRoot ::
  "'n node_ops \<Rightarrow> 'n CMerkleMountainView \<Rightarrow> ('n CMerkleMountainView \<times> uint256) option" where
  "GetRoot ops v =
     (if view_size v > 0 \<and> length (peakMerkle v) = 0
      then (case CalcPeaks ops v False of
              None \<Rightarrow> None
            | Some v1 \<Rightarrow>
                (case GetRoot_loop ops (peaks v1) (peakMerkle v1) 0 (length (peaks v1) mod 2 ^ 32) of
                   None \<Rightarrow> None
                 | Some pm \<Rightarrow>
                     (case root_of ops pm of
                        None \<Rightarrow> None
                      | Some rootHash \<Rightarrow> Some (v1\<lparr>peakMerkle := pm\<rparr>, rootHash))))
      else if length (peakMerkle v) > 0
      then (case root_of ops (peakMerkle v) of
              None \<Rightarrow> None
            | Some rootHash \<Rightarrow> Some (v, rootHash))
      else Some (v, 0))"

section \<open>GetProof and GetProofBits\<close>

text \<open>
  The walk of \<^verbatim>\<open>GetProof\<close> collects, for every step that appends to the branch, the
  hashes it appends (\<^verbatim>\<open>GetProofHash\<close>) together with the side it took: \<open>True\<close> for the
  branch \<^verbatim>\<open>p & 1\<close> (the sibling is the one before), \<open>False\<close> for the sibling after.
  The branch of the proof is the concatenation of the hashes.
\<close>

type_synonym proof_step = "bool \<times> uint256 list"

text \<open>The linear search for the peak whose hash is \<open>peakHash\<close>.\<close>

function find_peak :: "'n node_ops \<Rightarrow> 'n list \<Rightarrow> uint256 \<Rightarrow> nat \<Rightarrow> nat" where
  "find_peak ops pks peakHash p =
     (if p < length pks
      then (if node_hash ops (pks ! p) = peakHash then p
            else find_peak ops pks peakHash (p + 1))
      else p)"
  by pat_completeness auto
termination
  by (relation "measure (\<lambda>(ops, pks, peakHash, p). length pks - p)") auto

declare find_peak.simps [simp del]

text \<open>
  The loop up the peak merkle tree. \<open>layerSize\<close> is a \<^verbatim>\<open>uint32_t\<close>, so \<open>layerSize - 1\<close>
  wraps at 0; the loop's step reads \<^verbatim>\<open>peakMerkle[layerNum++].size()\<close>.
\<close>

function GetProof_peaks ::
  "'n node_ops \<Rightarrow> 'n list \<Rightarrow> 'n list list \<Rightarrow> nat \<Rightarrow> nat \<Rightarrow> nat \<Rightarrow> proof_step list
   \<Rightarrow> proof_step list option" where
  "GetProof_peaks ops pks pm layerNum layerSize p steps =
     (if layerNum = 0 \<or> layerSize > 1
      then (let layerIndex = (if layerNum \<noteq> 0 then layerNum - 1 else 0)
            in case (if layerNum \<noteq> 0 then vec_at pm layerIndex else Some pks) of
                 None \<Rightarrow> None
               | Some src \<Rightarrow>
                   (case (if p < (layerSize + 2 ^ 32 - 1) mod 2 ^ 32 \<or> p AND 1 \<noteq> 0
                          then (if p AND 1 \<noteq> 0
                                then (case vec_at src (p - 1) of
                                        None \<Rightarrow> None
                                      | Some sib \<Rightarrow>
                                          (case vec_at src p of
                                             None \<Rightarrow> None
                                           | Some cur \<Rightarrow>
                                               Some (steps @ [(True, GetProofHash ops sib cur)])))
                                else (case vec_at src (p + 1) of
                                        None \<Rightarrow> None
                                      | Some sib \<Rightarrow>
                                          (case vec_at src p of
                                             None \<Rightarrow> None
                                           | Some cur \<Rightarrow>
                                               Some (steps @ [(False, GetProofHash ops sib cur)]))))
                          else Some steps) of
                      None \<Rightarrow> None
                    | Some steps' \<Rightarrow>
                        (case vec_at pm layerNum of
                           None \<Rightarrow> None
                         | Some lay \<Rightarrow>
                             GetProof_peaks ops pks pm (layerNum + 1) (length lay mod 2 ^ 32)
                               (drop_bit 1 p) steps')))
      else Some steps)"
  by pat_completeness auto
termination
  by (relation "measure (\<lambda>(ops, pks, pm, layerNum, layerSize, p, steps). length pm - layerNum)")
     (auto simp: vec_at_def split: if_splits)

declare GetProof_peaks.simps [simp del]

text \<open>The loop of \<^verbatim>\<open>GetProof\<close> over the heights \<open>l\<close>, up to the peak.\<close>

function GetProof_loop ::
  "'n node_ops \<Rightarrow> 'n CMerkleMountainView \<Rightarrow> nat \<Rightarrow> nat \<Rightarrow> proof_step list
   \<Rightarrow> proof_step list option" where
  "GetProof_loop ops v l p steps =
     (if l < length (sizes v)
      then (if p AND 1 \<noteq> 0
            then (case GetNode ops (mmr v) l (p - 1) of
                    None \<Rightarrow> None
                  | Some sib \<Rightarrow>
                      (case GetNode ops (mmr v) l p of
                         None \<Rightarrow> None
                       | Some cur \<Rightarrow>
                           GetProof_loop ops v (l + 1) (drop_bit 1 p)
                             (steps @ [(True, GetProofHash ops sib cur)])))
            else if sizes v ! l > p + 1
            then (case GetNode ops (mmr v) l (p + 1) of
                    None \<Rightarrow> None
                  | Some sib \<Rightarrow>
                      (case GetNode ops (mmr v) l p of
                         None \<Rightarrow> None
                       | Some cur \<Rightarrow>
                           GetProof_loop ops v (l + 1) (drop_bit 1 p)
                             (steps @ [(False, GetProofHash ops sib cur)])))
            else (case GetNode ops (mmr v) l p of
                    None \<Rightarrow> None
                  | Some pk \<Rightarrow>
                      (let peakHash = node_hash ops pk;
                           p1 = find_peak ops (peaks v) peakHash 0
                       in if p1 < length (peaks v)
                          then GetProof_peaks ops (peaks v) (peakMerkle v) 0
                                 (length (peaks v) mod 2 ^ 32) p1 steps
                          else None)))
      else Some steps)"
  by pat_completeness auto
termination
  by (relation "measure (\<lambda>(ops, v, l, p, steps). length (sizes v) - l)") auto

declare GetProof_loop.simps [simp del]

section \<open>Branches and SafeCheck\<close>

record CMMRBranch =
  branchType :: nat
  nIndex :: nat
  nSize :: nat
  branch :: "uint256 list"

text \<open>\<^verbatim>\<open>CMerkleBranch\<close>, the Bitcoin-style branch (\<^verbatim>\<open>CBTCMerkleBranch\<close>).\<close>

record CMerkleBranch =
  btc_branchType :: nat
  btc_nIndex :: nat
  btc_branch :: "uint256 list"

text \<open>
  The loop of both \<^verbatim>\<open>SafeCheck\<close>s. \<open>index\<close> is an \<^verbatim>\<open>int64_t\<close>: \<^verbatim>\<open>index & 1\<close> and
  the arithmetic shift \<^verbatim>\<open>index >>= 1\<close> are \<open>AND\<close> and \<open>drop_bit\<close> on \<open>int\<close>.
\<close>

fun SafeCheck_loop :: "hasher \<Rightarrow> uint256 list \<Rightarrow> int \<Rightarrow> uint256 \<Rightarrow> uint256" where
  "SafeCheck_loop H [] index h = h"
| "SafeCheck_loop H (it # rest) index h =
     (if index AND 1 \<noteq> 0
      then (if it = h then 0
            else SafeCheck_loop H rest (drop_bit 1 index) (H it h))
      else SafeCheck_loop H rest (drop_bit 1 index) (H h it))"

text \<open>The conversion of a \<^verbatim>\<open>uint64_t\<close> to \<^verbatim>\<open>int64_t\<close>.\<close>

definition to_int64 :: "nat \<Rightarrow> int" where
  "to_int64 u = (if u mod 2 ^ 64 < 2 ^ 63 then int (u mod 2 ^ 64) else int (u mod 2 ^ 64) - 2 ^ 64)"

text \<open>
  \<^verbatim>\<open>CMMRBranch::SafeCheck\<close>. \<^verbatim>\<open>GetMMRProofIndex\<close> is declared in the source and
  defined outside it; here it is the parameter \<open>proofIndex\<close>.
\<close>

definition CMMRBranch_SafeCheck ::
  "hasher \<Rightarrow> (nat \<Rightarrow> nat \<Rightarrow> nat \<Rightarrow> nat) \<Rightarrow> 'n node_ops \<Rightarrow> CMMRBranch \<Rightarrow> uint256 \<Rightarrow> uint256" where
  "CMMRBranch_SafeCheck H proofIndex ops br h =
     (let index = to_int64 (proofIndex (nIndex br) (nSize br) (GetExtraHashCount ops))
      in if index = - 1 then 0
         else SafeCheck_loop H (branch br) index h)"

definition CMerkleBranch_SafeCheck :: "hasher \<Rightarrow> CMerkleBranch \<Rightarrow> uint256 \<Rightarrow> uint256" where
  "CMerkleBranch_SafeCheck H br h =
     (let index = int (btc_nIndex br mod 2 ^ 32)
      in if index = - 1 then 0
         else SafeCheck_loop H (btc_branch br) index h)"

text \<open>
  The replay in the words of the specification: step \<open>k\<close> looks at bit \<open>k\<close> of the
  stored index, least significant bit first.
\<close>

fun replay_bits :: "hasher \<Rightarrow> int \<Rightarrow> nat \<Rightarrow> uint256 list \<Rightarrow> uint256 \<Rightarrow> uint256" where
  "replay_bits H index k [] running = running"
| "replay_bits H index k (sibling # rest) running =
     (if bit index k
      then (if sibling = running then 0
            else replay_bits H index (k + 1) rest (H sibling running))
      else replay_bits H index (k + 1) rest (H running sibling))"

text \<open>
  \<^verbatim>\<open>GetProof\<close>: \<open>None\<close> where the source aborts, else the view (with its caches) and
  the branch appended to \<^verbatim>\<open>retProof\<close>, or no branch where the source returns false.
  \<^verbatim>\<open>nSize\<close> and \<^verbatim>\<open>nIndex\<close> are \<^verbatim>\<open>uint32_t\<close>.
\<close>

definition GetProof ::
  "'n node_ops \<Rightarrow> 'n CMerkleMountainView \<Rightarrow> nat
   \<Rightarrow> ('n CMerkleMountainView \<times> CMMRBranch option) option" where
  "GetProof ops v pos =
     (if pos < view_size v
      then (case GetRoot ops v of
              None \<Rightarrow> None
            | Some (v1, rootHash) \<Rightarrow>
                (case layer_at (layer0 (mmr v1)) pos of
                   None \<Rightarrow> None
                 | Some leaf \<Rightarrow>
                     (case GetProof_loop ops v1 0 pos [] of
                        None \<Rightarrow> None
                      | Some steps \<Rightarrow>
                          Some (v1, Some \<lparr> branchType = GetBranchType ops,
                                           nIndex = pos mod 2 ^ 32,
                                           nSize = view_size v1 mod 2 ^ 32,
                                           branch = GetLeafHash ops leaf @ concat (map snd steps) \<rparr>))))
      else Some (v, None))"

text \<open>
  \<^verbatim>\<open>GetProofBits\<close>. \<^verbatim>\<open>PeakIndexes\<close> holds \<^verbatim>\<open>unsigned char\<close>s. The loops in the order
  of the source: the peak heights, the sizes of the peak merkle layers, the walk.
\<close>

function PeakIndexes_loop :: "nat list \<Rightarrow> nat \<Rightarrow> nat list \<Rightarrow> nat list" where
  "PeakIndexes_loop Sizes ht PeakIndexes =
     (if ht < length Sizes
      then PeakIndexes_loop Sizes (ht + 1)
             (if ht = (length Sizes mod 2 ^ 32 + 2 ^ 32 - 1) mod 2 ^ 32 \<or> Sizes ! ht AND 1 \<noteq> 0
              then (ht mod 2 ^ 8) # PeakIndexes else PeakIndexes)
      else PeakIndexes)"
  by pat_completeness auto
termination
  by (relation "measure (\<lambda>(Sizes, ht, PeakIndexes). length Sizes - ht)") auto

declare PeakIndexes_loop.simps [simp del]

function MerkleSizes_loop :: "nat \<Rightarrow> nat \<Rightarrow> nat list \<Rightarrow> nat list" where
  "MerkleSizes_loop layerNum layerSize MerkleSizes =
     (if layerNum = 0 \<or> layerSize > 1
      then (let passThrough = (if layerSize AND 1 \<noteq> 0 then 1 else 0);
                layerSize1 = drop_bit 1 layerSize + passThrough
            in MerkleSizes_loop (layerNum + 1) layerSize1
                 (if layerSize1 \<noteq> 0 then MerkleSizes @ [layerSize1] else MerkleSizes))
      else MerkleSizes)"
  by pat_completeness auto
termination
proof (relation "measure (\<lambda>(layerNum, layerSize, MerkleSizes).
                   if layerNum = 0 then layerSize + 2 else layerSize)", goal_cases)
  case 1
  show ?case by simp
next
  case (2 layerNum layerSize MerkleSizes passThrough layerSize1)
  have "layerSize div 2 + layerSize mod 2 \<le> layerSize" by presburger
  moreover have "layerSize > 1 \<Longrightarrow> layerSize div 2 + layerSize mod 2 < layerSize" by presburger
  ultimately show ?case using 2 by (auto simp: drop_bit_eq_div and_one_eq)
qed

declare MerkleSizes_loop.simps [simp del]

text \<open>The bits one step appends: the bit and \<open>extrahashes\<close> zeros.\<close>

definition step_bits :: "nat \<Rightarrow> nat \<Rightarrow> nat list" where
  "step_bits extrahashes b = b # replicate extrahashes 0"

text \<open>
  The loop up the peak merkle tree in \<^verbatim>\<open>GetProofBits\<close>. \<open>layerNum\<close> is the
  \<^verbatim>\<open>uint64_t\<close> that starts at \<open>-1\<close> and that \<^verbatim>\<open>++layerNum\<close> wraps to 0: an integer here.
\<close>

function GetProofBits_peaks ::
  "nat \<Rightarrow> nat list \<Rightarrow> int \<Rightarrow> nat \<Rightarrow> nat \<Rightarrow> nat list \<Rightarrow> nat list option" where
  "GetProofBits_peaks extrahashes MerkleSizes layerNum layerSize p Bits =
     (if layerNum = - 1 \<or> layerSize > 1
      then (let Bits1 = (if p < (layerSize + 2 ^ 64 - 1) mod 2 ^ 64 \<or> p AND 1 \<noteq> 0
                         then (if p AND 1 \<noteq> 0
                               then Bits @ step_bits extrahashes 1
                               else Bits @ step_bits extrahashes 0)
                         else Bits)
            in if layerNum + 1 < 0 then None
               else (case vec_at MerkleSizes (nat (layerNum + 1)) of
                       None \<Rightarrow> None
                     | Some s \<Rightarrow>
                         GetProofBits_peaks extrahashes MerkleSizes (layerNum + 1) s
                           (drop_bit 1 p) Bits1))
      else Some Bits)"
  by pat_completeness auto
termination
  by (relation "measure (\<lambda>(extrahashes, MerkleSizes, layerNum, layerSize, p, Bits).
                   nat (int (length MerkleSizes) - layerNum))")
     (auto simp: vec_at_def split: if_splits)

declare GetProofBits_peaks.simps [simp del]

function find_PeakIndex :: "nat list \<Rightarrow> nat \<Rightarrow> nat \<Rightarrow> nat" where
  "find_PeakIndex PeakIndexes l p =
     (if p < length PeakIndexes
      then (if PeakIndexes ! p = l then p else find_PeakIndex PeakIndexes l (p + 1))
      else p)"
  by pat_completeness auto
termination
  by (relation "measure (\<lambda>(PeakIndexes, l, p). length PeakIndexes - p)") auto

declare find_PeakIndex.simps [simp del]

function GetProofBits_loop ::
  "nat \<Rightarrow> nat list \<Rightarrow> nat list \<Rightarrow> nat list \<Rightarrow> nat \<Rightarrow> nat \<Rightarrow> nat list \<Rightarrow> nat list option" where
  "GetProofBits_loop extrahashes Sizes PeakIndexes MerkleSizes l p Bits =
     (if l < length Sizes
      then (if p AND 1 \<noteq> 0
            then GetProofBits_loop extrahashes Sizes PeakIndexes MerkleSizes (l + 1) (drop_bit 1 p)
                   (Bits @ step_bits extrahashes 1)
            else if Sizes ! l > p + 1
            then GetProofBits_loop extrahashes Sizes PeakIndexes MerkleSizes (l + 1) (drop_bit 1 p)
                   (Bits @ step_bits extrahashes 0)
            else (let p1 = find_PeakIndex PeakIndexes l 0
                  in if p1 < length PeakIndexes
                     then GetProofBits_peaks extrahashes MerkleSizes (- 1)
                            (length PeakIndexes) p1 Bits
                     else None))
      else Some Bits)"
  by pat_completeness auto
termination
  by (relation "measure (\<lambda>(extrahashes, Sizes, PeakIndexes, MerkleSizes, l, p, Bits).
                   length Sizes - l)") auto

declare GetProofBits_loop.simps [simp del]

definition GetProofBits :: "nat \<Rightarrow> nat \<Rightarrow> nat \<Rightarrow> nat list option" where
  "GetProofBits extrahashes pos mmvSize =
     (if pos > 0 \<and> pos < mmvSize
      then (let Sizes = mmvSize # halving (drop_bit 1 mmvSize);
                PeakIndexes = PeakIndexes_loop Sizes 0 [];
                MerkleSizes = MerkleSizes_loop 0 (length PeakIndexes) [];
                Bits = replicate extrahashes 0
            in GetProofBits_loop extrahashes Sizes PeakIndexes MerkleSizes 0 pos Bits)
      else Some [])"

text \<open>A stand-in hash function for the evaluations at concrete inputs.\<close>

definition toy_hash :: hasher where
  "toy_hash a b = 3 * a + 5 * b + 7"

text \<open>
  Modelled from the spec: \<^verbatim>\<open>GetMMRProofIndex\<close> is declared in \<^verbatim>\<open>CMerkleBranchBase\<close>
  and its body is not in the repository. The specification has it mirror the layout of
  \<^verbatim>\<open>GetProofBits\<close>: the index whose bit \<open>k\<close> is the \<open>k\<close>-th entry of
  \<^verbatim>\<open>GetProofBits(pos, mmvSize)\<close>, a \<^verbatim>\<open>uint64_t\<close>.
\<close>

fun pack_bits :: "nat list \<Rightarrow> nat" where
  "pack_bits [] = 0"
| "pack_bits (b # bs) = b + 2 * pack_bits bs"

definition GetMMRProofIndex :: "nat \<Rightarrow> nat \<Rightarrow> nat \<Rightarrow> nat" where
  "GetMMRProofIndex pos mmvSize extrahashes =
     (case GetProofBits extrahashes pos mmvSize of
        None \<Rightarrow> 0
      | Some Bits \<Rightarrow> pack_bits Bits mod 2 ^ 64)"

section \<open>The bit operations as arithmetic, and evaluation\<close>

lemma chunkSize_eq: "chunkSize = 512"
  by (simp add: chunkSize_def CHUNK_SHIFT_def)

lemma and_chunkMask: "x AND chunkMask = x mod 512"
proof -
  have "chunkMask = mask 9" by (simp add: chunkMask_def chunkSize_eq mask_eq_exp_minus_1)
  then have "x AND chunkMask = take_bit 9 x" by (simp add: take_bit_eq_mask)
  then show ?thesis by (simp add: take_bit_eq_mod)
qed

lemma drop_chunk: "drop_bit CHUNK_SHIFT (x::nat) = x div 512"
  by (simp add: CHUNK_SHIFT_def drop_bit_eq_div)

lemma push_chunk: "push_bit CHUNK_SHIFT (x::nat) = x * 512"
  by (simp add: CHUNK_SHIFT_def push_bit_eq_mult)

lemma and_one_nat: "(x::nat) AND 1 = x mod 2"
  by (simp add: and_one_eq)

lemma drop_one_nat: "drop_bit 1 (x::nat) = x div 2"
  by (simp add: drop_bit_eq_div)

lemma push_one_nat: "push_bit 1 (x::nat) = 2 * x"
  by (simp add: push_bit_eq_mult)

lemma and_Suc0_nat: "(x::nat) AND Suc 0 = x mod 2"
  by (simp add: and_one_eq flip: One_nat_def)

lemma drop_Suc0_nat: "drop_bit (Suc 0) (x::nat) = x div 2"
  by (simp add: drop_bit_eq_div)

lemma push_Suc0_nat: "push_bit (Suc 0) (x::nat) = 2 * x"
  by (simp add: push_bit_eq_mult)

lemmas bit_arith = and_chunkMask drop_chunk push_chunk and_one_nat drop_one_nat push_one_nat
  chunkSize_eq and_Suc0_nat drop_Suc0_nat push_Suc0_nat

lemmas layer_eval = push_back_def on_back_def vec_at_def vec_resize_def layer_at_def layer_size_def
  empty_layer_def clear_def resize_def resize_loop.simps CHUNK_SHIFT_def Let_def bit_arith

lemmas mmr_eval = layer_eval Add_def Add_loop.simps empty_mmr_def mmr_size_def height_def
  GetNode_def Truncate_def Truncate_loop.simps halving.simps

lemmas view_eval = mmr_eval MountainView_def view_size_def CalcPeaks_def CalcPeaks_loop.simps
  GetRoot_def GetRoot_loop.simps GetRoot_layer_def GetRoot_pairs.simps root_of_def
  GetProof_def GetProof_loop.simps GetProof_peaks.simps find_peak.simps

lemmas bits_eval = GetProofBits_def GetProofBits_loop.simps GetProofBits_peaks.simps step_bits_def
  find_PeakIndex.simps MerkleSizes_loop.simps PeakIndexes_loop.simps halving.simps Let_def
  bit_arith vec_at_def

lemmas plain_eval = CDefaultMMRNode_def toy_hash_def BRANCH_MMRBLAKE_NODE_def

section \<open>Arithmetic of chunks\<close>

lemma pred_div: "(n::nat) mod c \<noteq> 0 \<Longrightarrow> (n - 1) div c = n div c"
  by (cases n) (auto simp: div_Suc)

lemma pred_mod: "(n::nat) mod c \<noteq> 0 \<Longrightarrow> (n - 1) mod c + 1 = n mod c"
  by (cases n) (auto simp: mod_Suc split: if_splits)

lemma pred_div0: "0 < (n::nat) \<Longrightarrow> 0 < c \<Longrightarrow> n mod c = 0 \<Longrightarrow> (n - 1) div c + 1 = n div c"
  by (cases n) (auto simp: div_Suc split: if_splits)

lemma mod_succ_one: "1 < c \<Longrightarrow> ((n::nat) + 1) mod c = 1 \<longleftrightarrow> n mod c = 0"
  by (auto simp: mod_Suc split: if_splits)

lemma same_chunk_mod: "(i::nat) \<le> k \<Longrightarrow> i div c = k div c \<Longrightarrow> i mod c \<le> k mod c"
  by (metis add_le_cancel_left div_mult_mod_eq)

lemma chunks_pos: "0 < (n::nat) \<Longrightarrow> (n + 511) div 512 = (n - 1) div 512 + 1"
proof -
  assume "0 < n"
  then have "n + 511 = (n - 1) + 512" by simp
  then show ?thesis by (simp only: div_add_self2)
qed

lemma chunk_idx_less: "i < (n::nat) \<Longrightarrow> i div 512 < (n + 511) div 512"
proof -
  assume a: "i < n"
  then have "i div 512 \<le> (n - 1) div 512" by (intro div_le_mono) simp
  then show ?thesis using chunks_pos [of n] a by simp
qed

lemma chunks_mod0: "(n::nat) mod 512 = 0 \<Longrightarrow> (n + 511) div 512 = n div 512"
proof (cases "n = 0")
  case False
  assume "n mod 512 = 0"
  with False pred_div0 [of n 512] chunks_pos [of n] show ?thesis by simp
qed simp

lemma chunks_modn: "(n::nat) mod 512 \<noteq> 0 \<Longrightarrow> (n + 511) div 512 = n div 512 + 1"
proof -
  assume a: "n mod 512 \<noteq> 0"
  then have "0 < n" by (cases "n = 0") auto
  with a pred_div [of n 512] chunks_pos [of n] show ?thesis by simp
qed

lemma chunk_succ_one: "((n::nat) + 1) mod 512 = 1 \<longleftrightarrow> n mod 512 = 0"
  using mod_succ_one [of 512 n] by simp

section \<open>The replay of a branch (C2)\<close>

lemma SafeCheck_loop_replay:
  "SafeCheck_loop H br (drop_bit k index) h = replay_bits H index k br h"
proof (induction br arbitrary: k h)
  case Nil
  show ?case by simp
next
  case (Cons it rest)
  have odd_iff: "(drop_bit k index AND 1 \<noteq> 0) = bit index k"
    by (simp add: and_one_eq bit_iff_odd_drop_bit odd_iff_mod_2_eq_one)
  have shift: "drop_bit 1 (drop_bit k index) = drop_bit (k + 1) index"
    by (simp add: drop_bit_drop_bit)
  show ?case
    using Cons.IH [of "k + 1"] by (simp only: SafeCheck_loop.simps replay_bits.simps odd_iff shift)
qed

lemma replay_bits_rejects:
  "j < length br \<Longrightarrow> bit index (k + j) \<Longrightarrow> br ! j = replay_bits H index k (take j br) h
   \<Longrightarrow> replay_bits H index k br h = 0"
proof (induction br arbitrary: k j h)
  case Nil
  then show ?case by simp
next
  case (Cons sibling rest)
  show ?case
  proof (cases j)
    case 0
    with Cons.prems show ?thesis by simp
  next
    case (Suc j')
    have bitj: "bit index (k + 1 + j')" using Cons.prems(2) Suc by simp
    have len: "j' < length rest" using Cons.prems(1) Suc by simp
    show ?thesis
    proof (cases "bit index k")
      case True
      show ?thesis
      proof (cases "sibling = h")
        case True
        with \<open>bit index k\<close> show ?thesis by simp
      next
        case False
        have "rest ! j' = replay_bits H index (k + 1) (take j' rest) (H sibling h)"
          using Cons.prems(3) Suc True False by simp
        from Cons.IH [OF len bitj this] True False show ?thesis by simp
      qed
    next
      case False
      have "rest ! j' = replay_bits H index (k + 1) (take j' rest) (H h sibling)"
        using Cons.prems(3) Suc False by simp
      from Cons.IH [OF len bitj this] False show ?thesis by simp
    qed
  qed
qed

text \<open>
  C2. Both \<^verbatim>\<open>SafeCheck\<close>s replay the sibling list against the bits of the index,
  least significant bit first: at a step whose bit is 1 the sibling goes on the left,
  \<open>H sibling running\<close>, unless it equals the running hash, and then the result is the
  null hash; at a step whose bit is 0 the pair is \<open>H running sibling\<close>; after the whole
  list the running hash is returned. \<^verbatim>\<open>CMMRBranch::SafeCheck\<close> returns the null hash at
  once when the index is the sentinel \<open>-1\<close>. A sibling equal to the running hash at a
  step whose bit is 1 makes the result null, wherever the step is.
\<close>

theorem SafeCheck_replays_index_bits:
  "CMMRBranch_SafeCheck H proofIndex ops br h =
     (if to_int64 (proofIndex (nIndex br) (nSize br) (GetExtraHashCount ops)) = - 1 then 0
      else replay_bits H (to_int64 (proofIndex (nIndex br) (nSize br) (GetExtraHashCount ops)))
             0 (branch br) h)
   \<and> CMerkleBranch_SafeCheck H mb h =
       replay_bits H (int (btc_nIndex mb mod 2 ^ 32)) 0 (btc_branch mb) h
   \<and> (\<forall>j. j < length (btc_branch mb) \<longrightarrow> bit (int (btc_nIndex mb mod 2 ^ 32)) j \<longrightarrow>
          btc_branch mb ! j
            = replay_bits H (int (btc_nIndex mb mod 2 ^ 32)) 0 (take j (btc_branch mb)) h \<longrightarrow>
          CMerkleBranch_SafeCheck H mb h = 0)"
proof -
  have loop: "\<And>xs i g. SafeCheck_loop H xs i g = replay_bits H i 0 xs g"
    using SafeCheck_loop_replay [where k = 0] by simp
  have nonneg: "int (btc_nIndex mb mod 2 ^ 32) \<noteq> - 1"
    by linarith
  have a: "CMMRBranch_SafeCheck H proofIndex ops br h =
     (if to_int64 (proofIndex (nIndex br) (nSize br) (GetExtraHashCount ops)) = - 1 then 0
      else replay_bits H (to_int64 (proofIndex (nIndex br) (nSize br) (GetExtraHashCount ops)))
             0 (branch br) h)"
    by (simp add: CMMRBranch_SafeCheck_def Let_def loop)
  have b: "CMerkleBranch_SafeCheck H mb h =
       replay_bits H (int (btc_nIndex mb mod 2 ^ 32)) 0 (btc_branch mb) h"
    unfolding CMerkleBranch_SafeCheck_def Let_def using nonneg by (simp only: loop if_False)
  have c: "\<forall>j. j < length (btc_branch mb) \<longrightarrow> bit (int (btc_nIndex mb mod 2 ^ 32)) j \<longrightarrow>
          btc_branch mb ! j
            = replay_bits H (int (btc_nIndex mb mod 2 ^ 32)) 0 (take j (btc_branch mb)) h \<longrightarrow>
          CMerkleBranch_SafeCheck H mb h = 0"
    using replay_bits_rejects [where k = 0] b by simp
  from a b c show ?thesis by blast
qed

theorem SafeCheck_replays_index_bits_witness:
  "CMerkleBranch_SafeCheck toy_hash
     \<lparr> btc_branchType = BRANCH_BTC, btc_nIndex = 2, btc_branch = [4, 42] \<rparr> 5 = 0"
proof -
  let ?mb = "\<lparr> btc_branchType = BRANCH_BTC, btc_nIndex = 2, btc_branch = [4, 42 :: uint256] \<rparr>"
  have "\<forall>j. j < length (btc_branch ?mb) \<longrightarrow> bit (int (btc_nIndex ?mb mod 2 ^ 32)) j \<longrightarrow>
          btc_branch ?mb ! j
            = replay_bits toy_hash (int (btc_nIndex ?mb mod 2 ^ 32)) 0 (take j (btc_branch ?mb)) 5 \<longrightarrow>
          CMerkleBranch_SafeCheck toy_hash ?mb 5 = 0"
    using SafeCheck_replays_index_bits [where H = toy_hash and mb = ?mb and h = 5]
    by blast
  then have "1 < length (btc_branch ?mb) \<longrightarrow> bit (int (btc_nIndex ?mb mod 2 ^ 32)) 1 \<longrightarrow>
          btc_branch ?mb ! 1
            = replay_bits toy_hash (int (btc_nIndex ?mb mod 2 ^ 32)) 0 (take 1 (btc_branch ?mb)) 5 \<longrightarrow>
          CMerkleBranch_SafeCheck toy_hash ?mb 5 = 0"
    by blast
  then show ?thesis by (simp add: toy_hash_def)
qed

section \<open>The view's constructor (C10)\<close>

lemma view_size_MountainView:
  "view_size (MountainView m v) = (if v > mmr_size m \<or> v = 0 then mmr_size m else v)"
  by (simp add: view_size_def MountainView_def Let_def)

text \<open>
  C10. A view constructed with \<open>viewSize = 0\<close> has the size of the range, as a view
  constructed with a \<open>viewSize\<close> above the range's size has; so over a non-empty range the
  constructor gives no empty view.
\<close>

theorem MountainView_zero_is_full:
  "view_size (MountainView m 0) = mmr_size m
   \<and> (\<forall>v. v > mmr_size m \<longrightarrow> MountainView m v = MountainView m 0)
   \<and> (mmr_size m \<noteq> 0 \<longrightarrow> (\<forall>v. view_size (MountainView m v) \<noteq> 0))"
  by (simp add: view_size_MountainView) (simp add: MountainView_def Let_def)

theorem MountainView_zero_is_full_witness:
  "Add_all (CDefaultMMRNode toy_hash) empty_mmr [CMMRNode 1, CMMRNode 2]
     = Some \<lparr> upperNodes = [\<lparr> vSize = 1, nodes = [[CMMRNode 20]] \<rparr>],
              layer0 = \<lparr> vSize = 2, nodes = [[CMMRNode 1, CMMRNode 2]] \<rparr> \<rparr>
   \<and> view_size (MountainView \<lparr> upperNodes = [\<lparr> vSize = 1, nodes = [[CMMRNode 20]] \<rparr>],
              layer0 = \<lparr> vSize = 2, nodes = [[CMMRNode 1, CMMRNode 2]] \<rparr> \<rparr> 0) = 2
   \<and> MountainView \<lparr> upperNodes = [\<lparr> vSize = 1, nodes = [[CMMRNode 20]] \<rparr>],
              layer0 = \<lparr> vSize = 2, nodes = [[CMMRNode 1, CMMRNode 2]] \<rparr> \<rparr> 3
       = MountainView \<lparr> upperNodes = [\<lparr> vSize = 1, nodes = [[CMMRNode 20]] \<rparr>],
              layer0 = \<lparr> vSize = 2, nodes = [[CMMRNode 1, CMMRNode 2]] \<rparr> \<rparr> 0
   \<and> view_size (MountainView \<lparr> upperNodes = [\<lparr> vSize = 1, nodes = [[CMMRNode 20]] \<rparr>],
              layer0 = \<lparr> vSize = 2, nodes = [[CMMRNode 1, CMMRNode 2]] \<rparr> \<rparr> 1) \<noteq> 0"
proof -
  let ?m = "\<lparr> upperNodes = [\<lparr> vSize = 1, nodes = [[CMMRNode 20]] \<rparr>],
              layer0 = \<lparr> vSize = 2, nodes = [[CMMRNode 1, CMMRNode 2]] \<rparr> \<rparr>"
  have built: "Add_all (CDefaultMMRNode toy_hash) empty_mmr [CMMRNode 1, CMMRNode 2] = Some ?m"
    by (simp add: mmr_eval plain_eval)
  have sz: "mmr_size ?m = 2" by (simp add: mmr_size_def layer_size_def)
  from MountainView_zero_is_full [of ?m] sz built show ?thesis by simp
qed

section \<open>The abstraction of a layer\<close>

text \<open>
  \<open>layer_list\<close> is the sequence of nodes a layer holds; \<open>layer_rd\<close> says every index
  below \<open>vSize\<close> is stored in its chunk, \<open>layer_ok\<close> that the last chunk holds nothing
  more (what \<^verbatim>\<open>push_back\<close> relies on).
\<close>

definition layer_list :: "'n CChunkedLayer \<Rightarrow> 'n list" where
  "layer_list l = map (\<lambda>i. nodes l ! (i div 512) ! (i mod 512)) [0..<vSize l]"

definition layer_rd :: "'n CChunkedLayer \<Rightarrow> bool" where
  "layer_rd l \<longleftrightarrow>
     vSize l < 2 ^ 64 \<and> length (nodes l) = (vSize l + 511) div 512
     \<and> (\<forall>i < vSize l. i mod 512 < length (nodes l ! (i div 512)))"

definition layer_ok :: "'n CChunkedLayer \<Rightarrow> bool" where
  "layer_ok l \<longleftrightarrow>
     layer_rd l \<and> (vSize l > 0 \<longrightarrow> length (last (nodes l)) = (vSize l - 1) mod 512 + 1)"

lemma length_layer_list [simp]: "length (layer_list l) = vSize l"
  by (simp add: layer_list_def)

lemma layer_list_nth: "i < vSize l \<Longrightarrow> layer_list l ! i = nodes l ! (i div 512) ! (i mod 512)"
  by (simp add: layer_list_def)

lemma layer_at_rd:
  assumes "layer_rd l"
  shows "layer_at l i = (if i < vSize l then Some (layer_list l ! i) else None)"
proof (cases "i < vSize l")
  case True
  have "i div 512 < (vSize l + 511) div 512" using True by (rule chunk_idx_less)
  then have c: "i div 512 < length (nodes l)" using assms by (simp add: layer_rd_def)
  have e: "i mod 512 < length (nodes l ! (i div 512))" using assms True by (simp add: layer_rd_def)
  show ?thesis using True c e
    by (simp add: layer_at_def vec_at_def and_chunkMask drop_chunk layer_list_nth)
next
  case False
  then show ?thesis by (simp add: layer_at_def)
qed

lemma layer_ok_rd: "layer_ok l \<Longrightarrow> layer_rd l"
  by (simp add: layer_ok_def)

lemma layer_ok_empty: "layer_ok empty_layer" "layer_list empty_layer = []" "vSize empty_layer = 0"
  by (simp_all add: layer_ok_def layer_rd_def empty_layer_def layer_list_def)

lemma push_back_ok:
  assumes ok: "layer_ok l" and bound: "vSize l + 1 < 2 ^ 64"
  shows "\<exists>l'. push_back l x = Some l' \<and> layer_ok l' \<and> layer_list l' = layer_list l @ [x]"
proof -
  let ?n = "vSize l"
  let ?ns = "nodes l"
  have rd: "layer_rd l" using ok by (rule layer_ok_rd)
  have len: "length ?ns = (?n + 511) div 512" using rd by (simp add: layer_rd_def)
  have inr: "\<And>i. i < ?n \<Longrightarrow> i mod 512 < length (?ns ! (i div 512))"
    using rd by (simp add: layer_rd_def)
  have vs: "(?n + 1) mod 2 ^ 64 = ?n + 1" using bound by simp
  show ?thesis
  proof (cases "?n mod 512 = 0")
    case True
    then have one: "(?n + 1) mod 512 = 1" by (simp add: mod_Suc)
    define l' where "l' = \<lparr> vSize = ?n + 1, nodes = ?ns @ [[x]] \<rparr>"
    have pb: "push_back l x = Some l'"
      using one vs by (simp add: push_back_def Let_def and_chunkMask on_back_def l'_def)
    have k: "?n div 512 = length ?ns" using True len by (simp add: chunks_mod0)
    have "(?n + 1) mod 512 \<noteq> 0" using one by simp
    then have "(?n + 1 + 511) div 512 = (?n + 1) div 512 + 1" by (rule chunks_modn)
    moreover have "(?n + 1) div 512 = ?n div 512" using pred_div [of "?n + 1" 512] one by simp
    ultimately have len': "length (nodes l') = (vSize l' + 511) div 512"
      using k by (simp add: l'_def)
    have low: "\<And>i. i < ?n \<Longrightarrow> i div 512 < length ?ns"
      using len chunk_idx_less by simp
    have nth': "\<And>i. i < ?n \<Longrightarrow> nodes l' ! (i div 512) = ?ns ! (i div 512)"
      using low by (simp add: l'_def nth_append)
    have nthn: "nodes l' ! (?n div 512) = [x]"
      using k by (simp add: l'_def nth_append)
    have rd': "layer_rd l'"
      unfolding layer_rd_def
    proof (intro conjI allI impI)
      show "vSize l' < 2 ^ 64" using bound by (simp add: l'_def)
      show "length (nodes l') = (vSize l' + 511) div 512" by (rule len')
      fix i assume "i < vSize l'"
      then have "i < ?n \<or> i = ?n" by (auto simp: l'_def)
      then show "i mod 512 < length (nodes l' ! (i div 512))"
        using nth' inr nthn True by auto
    qed
    have ok': "layer_ok l'"
      using rd' True by (simp add: layer_ok_def l'_def)
    have ll: "layer_list l' = layer_list l @ [x]"
    proof (rule nth_equalityI)
      show "length (layer_list l') = length (layer_list l @ [x])" by (simp add: l'_def)
      fix i assume "i < length (layer_list l')"
      then have i: "i < ?n \<or> i = ?n" by (auto simp: l'_def)
      show "layer_list l' ! i = (layer_list l @ [x]) ! i"
      proof (cases "i < ?n")
        case True
        then show ?thesis using nth' [OF True]
          by (simp add: layer_list_nth nth_append l'_def)
      next
        case False
        with i have "i = ?n" by simp
        then show ?thesis using nthn \<open>?n mod 512 = 0\<close>
          by (simp add: layer_list_nth nth_append l'_def)
      qed
    qed
    from pb ok' ll show ?thesis by blast
  next
    case False
    then have pos: "?n > 0" by (cases "?n = 0") auto
    have notone: "(?n + 1) mod 512 \<noteq> 1" using False by (simp add: mod_Suc)
    have ne: "?ns \<noteq> []" using len pos by (cases "?ns") auto
    have lastlen: "length (last ?ns) = ?n mod 512"
    proof -
      have "length (last ?ns) = (?n - 1) mod 512 + 1" using ok pos by (simp add: layer_ok_def)
      also have "\<dots> = ?n mod 512" using False by (rule pred_mod)
      finally show ?thesis .
    qed
    define l' where "l' = \<lparr> vSize = ?n + 1, nodes = butlast ?ns @ [last ?ns @ [x]] \<rparr>"
    have pb: "push_back l x = Some l'"
      using notone vs ne by (simp add: push_back_def Let_def and_chunkMask on_back_def l'_def)
    have k: "?n div 512 = length ?ns - 1" using False len by (simp add: chunks_modn)
    have lenb: "length (butlast ?ns) = length ?ns - 1" by simp
    have "(?n + 1 + 511) div 512 = (?n + 511) div 512"
    proof (cases "(?n + 1) mod 512 = 0")
      case True
      then have "(?n + 1 + 511) div 512 = (?n + 1) div 512" by (rule chunks_mod0)
      moreover have "(?n + 1) div 512 = ?n div 512 + 1"
        using pred_div0 [of "?n + 1" 512] True by simp
      ultimately show ?thesis using False by (simp add: chunks_modn)
    next
      case nz: False
      then have "(?n + 1 + 511) div 512 = (?n + 1) div 512 + 1" by (rule chunks_modn)
      moreover have "(?n + 1) div 512 = ?n div 512" using pred_div [of "?n + 1" 512] nz by simp
      ultimately show ?thesis using False by (simp add: chunks_modn)
    qed
    then have len': "length (nodes l') = (vSize l' + 511) div 512"
      using len ne by (simp add: l'_def)
    have idx: "\<And>i. i < ?n \<Longrightarrow> i div 512 < length ?ns"
      using len chunk_idx_less by simp
    have nth_lo: "\<And>i. i div 512 < length ?ns - 1 \<Longrightarrow> nodes l' ! (i div 512) = ?ns ! (i div 512)"
      by (simp add: l'_def nth_append nth_butlast)
    have nth_hi: "\<And>i. i div 512 = length ?ns - 1 \<Longrightarrow> nodes l' ! (i div 512) = last ?ns @ [x]"
      by (simp add: l'_def nth_append)
    have last_nth: "?ns ! (length ?ns - 1) = last ?ns" using ne by (simp add: last_conv_nth)
    have rd': "layer_rd l'"
      unfolding layer_rd_def
    proof (intro conjI allI impI)
      show "vSize l' < 2 ^ 64" using bound by (simp add: l'_def)
      show "length (nodes l') = (vSize l' + 511) div 512" by (rule len')
      fix i assume "i < vSize l'"
      then have i: "i < ?n \<or> i = ?n" by (auto simp: l'_def)
      show "i mod 512 < length (nodes l' ! (i div 512))"
      proof (cases "i div 512 < length ?ns - 1")
        case True
        then have "i < ?n" using i k by auto
        then show ?thesis using nth_lo [OF True] inr by simp
      next
        case False
        then have eq: "i div 512 = length ?ns - 1" using i idx k by auto
        show ?thesis
        proof (cases "i < ?n")
          case True
          from inr [OF True] eq last_nth have "i mod 512 < length (last ?ns)" by simp
          then show ?thesis using nth_hi [OF eq] by simp
        next
          case False
          with i have "i = ?n" by simp
          then show ?thesis using nth_hi [OF eq] lastlen by simp
        qed
      qed
    qed
    have ok': "layer_ok l'"
      using rd' lastlen by (simp add: layer_ok_def l'_def)
    have ll: "layer_list l' = layer_list l @ [x]"
    proof (rule nth_equalityI)
      show "length (layer_list l') = length (layer_list l @ [x])" by (simp add: l'_def)
      fix i assume "i < length (layer_list l')"
      then have i: "i < ?n \<or> i = ?n" by (auto simp: l'_def)
      have il: "i < vSize l'" using i by (auto simp: l'_def)
      show "layer_list l' ! i = (layer_list l @ [x]) ! i"
      proof (cases "i div 512 < length ?ns - 1")
        case True
        then have "i < ?n" using i k by auto
        then show ?thesis using nth_lo [OF True] il
          by (simp add: layer_list_nth nth_append)
      next
        case False
        then have eq: "i div 512 = length ?ns - 1" using i idx k by auto
        show ?thesis
        proof (cases "i < ?n")
          case True
          from inr [OF True] eq last_nth have "i mod 512 < length (last ?ns)" by simp
          then show ?thesis using nth_hi [OF eq] il True eq last_nth
            by (simp add: layer_list_nth nth_append)
        next
          case False
          with i have "i = ?n" by simp
          then show ?thesis using nth_hi [OF eq] lastlen il
            by (simp add: layer_list_nth nth_append)
        qed
      qed
    qed
    from pb ok' ll show ?thesis by blast
  qed
qed

lemma resize_loop_done: "chunksSize < i \<Longrightarrow> resize_loop d newSize chunksSize i ns = Some ns"
  by (subst resize_loop.simps) simp

lemma resize_loop_last:
  "ns \<noteq> [] \<Longrightarrow> resize_loop d newSize chunksSize chunksSize ns
     = Some (butlast ns @ [vec_resize d (((newSize - 1) AND chunkMask) + 1) (last ns)])"
  by (subst resize_loop.simps) (simp add: on_back_def resize_loop_done)

lemma resize_shrink:
  assumes rd: "layer_rd l" and le: "k \<le> vSize l"
  shows "\<exists>l'. resize d l k = Some l' \<and> layer_rd l' \<and> layer_list l' = take k (layer_list l)"
proof (cases "k = 0")
  case True
  then show ?thesis
    by (simp add: resize_def clear_def layer_rd_def layer_list_def)
next
  case False
  let ?n = "vSize l"
  let ?ns = "nodes l"
  let ?C = "(k - 1) div 512 + 1"
  let ?r = "(k - 1) mod 512 + 1"
  have kpos: "0 < k" and npos: "0 < ?n" using False le by auto
  have n64: "?n < 2 ^ 64" using rd by (simp add: layer_rd_def)
  have len: "length ?ns = (?n - 1) div 512 + 1"
    using rd npos by (simp add: layer_rd_def chunks_pos)
  have inr: "\<And>i. i < ?n \<Longrightarrow> i mod 512 < length (?ns ! (i div 512))"
    using rd by (simp add: layer_rd_def)
  have CS: "?C \<le> length ?ns" using le len by (simp add: div_le_mono)
  have "k - 1 < ?n" using kpos le by simp
  from inr [OF this] have rlen: "?r \<le> length (?ns ! (?C - 1))" by simp
  define ns0 where "ns0 = vec_resize [] ?C ?ns"
  have ns0: "ns0 = take ?C ?ns" using CS by (simp add: ns0_def vec_resize_def)
  have ns0_ne: "ns0 \<noteq> []" using CS ns0 by (cases ?ns) auto
  have ns0_len: "length ns0 = ?C" using CS ns0 by simp
  have last0: "last ns0 = ?ns ! (?C - 1)"
    using ns0_ne ns0_len ns0 by (simp add: last_conv_nth)
  obtain ns1 where
    loop: "resize_loop d k ?C ((?n - 1) div 512 + 1) ns0 = Some ns1" and
    ns1_len: "length ns1 = ?C" and
    ns1_lo: "\<And>c. c < ?C - 1 \<Longrightarrow> ns1 ! c = ?ns ! c" and
    ns1_hi: "ns1 ! (?C - 1) = ?ns ! (?C - 1) \<or> ns1 ! (?C - 1) = take ?r (?ns ! (?C - 1))"
  proof (cases "?C < (?n - 1) div 512 + 1")
    case True
    show ?thesis
    proof (rule that [of ns0])
      show "resize_loop d k ?C ((?n - 1) div 512 + 1) ns0 = Some ns0"
        using True by (rule resize_loop_done)
      show "length ns0 = ?C" by (rule ns0_len)
      show "\<And>c. c < ?C - 1 \<Longrightarrow> ns0 ! c = ?ns ! c" by (simp add: ns0)
      show "ns0 ! (?C - 1) = ?ns ! (?C - 1) \<or> ns0 ! (?C - 1) = take ?r (?ns ! (?C - 1))"
        by (simp add: ns0)
    qed
  next
    case False
    then have eq: "(?n - 1) div 512 + 1 = ?C" using CS len by simp
    let ?ns1 = "butlast ns0 @ [vec_resize d ?r (last ns0)]"
    have vr: "vec_resize d ?r (last ns0) = take ?r (?ns ! (?C - 1))"
      using rlen by (simp add: vec_resize_def last0)
    show ?thesis
    proof (rule that [of ?ns1])
      show "resize_loop d k ?C ((?n - 1) div 512 + 1) ns0 = Some ?ns1"
        using resize_loop_last [OF ns0_ne, of d k ?C] eq by (simp add: and_chunkMask)
      show "length ?ns1 = ?C" using ns0_len by simp
      show "\<And>c. c < ?C - 1 \<Longrightarrow> ?ns1 ! c = ?ns ! c"
        using ns0_len by (simp add: nth_append nth_butlast ns0)
      show "?ns1 ! (?C - 1) = ?ns ! (?C - 1) \<or> ?ns1 ! (?C - 1) = take ?r (?ns ! (?C - 1))"
        using ns0_len vr by (simp add: nth_append)
    qed
  qed
  have rebuild: "((k - 1) div 512) * 512 + ?r = k" using kpos by simp
  define l' where "l' = \<lparr> vSize = k, nodes = ns1 \<rparr>"
  have k64: "k < 2 ^ 64" using le n64 by simp
  have res: "resize d l k = Some l'"
  proof -
    have a: "drop_bit CHUNK_SHIFT (k - 1) + 1 = ?C" by (simp add: drop_chunk)
    have b: "(if layer_size l \<noteq> 0 then drop_bit CHUNK_SHIFT (layer_size l - 1) + 1 else 1)
               = (?n - 1) div 512 + 1"
      using npos by (simp add: drop_chunk layer_size_def)
    have c: "(push_bit CHUNK_SHIFT (length ns1 - 1) + ((k - 1) AND chunkMask) + 1) mod 2 ^ 64 = k"
      using ns1_len rebuild k64 by (simp add: push_chunk and_chunkMask)
    show ?thesis
      by (simp only: resize_def Let_def a b ns0_def [symmetric] loop option.case c False
          if_False l'_def)
  qed
  have rd_idx: "\<And>i. i < k \<Longrightarrow> i mod 512 < length (ns1 ! (i div 512))
                          \<and> ns1 ! (i div 512) ! (i mod 512) = ?ns ! (i div 512) ! (i mod 512)"
  proof -
    fix i assume ik: "i < k"
    then have il: "i div 512 \<le> ?C - 1" by (simp add: div_le_mono)
    have in': "i < ?n" using ik le by simp
    show "i mod 512 < length (ns1 ! (i div 512))
          \<and> ns1 ! (i div 512) ! (i mod 512) = ?ns ! (i div 512) ! (i mod 512)"
    proof (cases "i div 512 < ?C - 1")
      case True
      then show ?thesis using ns1_lo [OF True] inr [OF in'] by simp
    next
      case False
      with il have eq: "i div 512 = ?C - 1" by simp
      then have "i div 512 = (k - 1) div 512" by simp
      with ik have "i mod 512 \<le> (k - 1) mod 512" by (intro same_chunk_mod) auto
      then have lt: "i mod 512 < ?r" by simp
      from ns1_hi show ?thesis
      proof
        assume "ns1 ! (?C - 1) = ?ns ! (?C - 1)"
        then show ?thesis using inr [OF in'] eq by simp
      next
        assume "ns1 ! (?C - 1) = take ?r (?ns ! (?C - 1))"
        then show ?thesis using lt rlen eq by simp
      qed
    qed
  qed
  have rd': "layer_rd l'"
    unfolding layer_rd_def
  proof (intro conjI allI impI)
    show "vSize l' < 2 ^ 64" using k64 by (simp add: l'_def)
    show "length (nodes l') = (vSize l' + 511) div 512"
      using ns1_len kpos by (simp add: l'_def chunks_pos)
    fix i assume "i < vSize l'"
    then show "i mod 512 < length (nodes l' ! (i div 512))"
      using rd_idx by (simp add: l'_def)
  qed
  have ll: "layer_list l' = take k (layer_list l)"
  proof (rule nth_equalityI)
    show "length (layer_list l') = length (take k (layer_list l))"
      using le by (simp add: l'_def)
    fix i assume "i < length (layer_list l')"
    then have ik: "i < k" by (simp add: l'_def)
    then show "layer_list l' ! i = take k (layer_list l) ! i"
      using rd_idx [OF ik] le by (simp add: layer_list_nth l'_def)
  qed
  from res rd' ll show ?thesis by blast
qed

section \<open>The invariant of a range built by Add\<close>

text \<open>
  \<open>lev m h\<close> is the sequence of nodes at height \<open>h\<close>. In a well-formed range of \<open>n\<close>
  leaves, height \<open>h + 1\<close> holds \<open>n div 2 ^ (h + 1)\<close> nodes, each the parent of the two
  nodes below it, and there are \<open>floorlog 2 n\<close> heights (\<open>mmr_shape\<close>). \<open>Add_st\<close> is the
  invariant of the loop of \<^verbatim>\<open>Add\<close>: the heights below \<open>ht\<close> already have their new sizes.
\<close>

definition lev :: "'n CMerkleMountainRange \<Rightarrow> nat \<Rightarrow> 'n list" where
  "lev m h = (case h of 0 \<Rightarrow> layer_list (layer0 m)
              | Suc k \<Rightarrow> if k < length (upperNodes m) then layer_list (upperNodes m ! k) else [])"

definition parents_of :: "'n node_ops \<Rightarrow> 'n list \<Rightarrow> 'n list \<Rightarrow> bool" where
  "parents_of ops xs ys \<longleftrightarrow>
     (\<forall>i < length ys. 2 * i + 1 < length xs
        \<and> CreateParentNode ops (xs ! (2 * i)) (xs ! (2 * i + 1)) = Some (ys ! i))"

definition mmr_shape :: "'n node_ops \<Rightarrow> 'n CMerkleMountainRange \<Rightarrow> bool" where
  "mmr_shape ops m \<longleftrightarrow>
     mmr_size m < 2 ^ 32
     \<and> length (upperNodes m) = floorlog 2 (mmr_size m) - 1
     \<and> (\<forall>h < length (upperNodes m).
           vSize (upperNodes m ! h) = mmr_size m div 2 ^ (h + 1)
           \<and> parents_of ops (lev m h) (lev m (h + 1)))"

definition mmr_rd :: "'n node_ops \<Rightarrow> 'n CMerkleMountainRange \<Rightarrow> bool" where
  "mmr_rd ops m \<longleftrightarrow>
     layer_rd (layer0 m) \<and> (\<forall>l \<in> set (upperNodes m). layer_rd l) \<and> mmr_shape ops m"

definition mmr_ok :: "'n node_ops \<Rightarrow> 'n CMerkleMountainRange \<Rightarrow> bool" where
  "mmr_ok ops m \<longleftrightarrow>
     layer_ok (layer0 m) \<and> (\<forall>l \<in> set (upperNodes m). layer_ok l) \<and> mmr_shape ops m"

definition cp_total :: "'n node_ops \<Rightarrow> bool" where
  "cp_total ops \<longleftrightarrow> (\<forall>a b. CreateParentNode ops a b \<noteq> None)"

definition Add_st ::
  "'n node_ops \<Rightarrow> nat \<Rightarrow> nat \<Rightarrow> nat \<Rightarrow> 'n CMerkleMountainRange \<Rightarrow> bool" where
  "Add_st ops n ht len m \<longleftrightarrow>
     layer_ok (layer0 m) \<and> vSize (layer0 m) = n \<and> 0 < n \<and> n < 2 ^ 32
     \<and> (\<forall>l \<in> set (upperNodes m). layer_ok l)
     \<and> length (upperNodes m) = len
     \<and> (\<forall>h < len.
           vSize (upperNodes m ! h) = (if h < ht then n else n - 1) div 2 ^ (h + 1)
           \<and> parents_of ops (lev m h) (lev m (h + 1)))"

lemma div_pow_Suc: "(n::nat) div 2 ^ (h + 1) = n div 2 ^ h div 2"
proof -
  have "(2::nat) ^ (h + 1) = 2 ^ h * 2" by simp
  then show ?thesis by (simp only: div_mult2_eq)
qed

lemma div_pred_le: "0 < K \<Longrightarrow> (n::nat) div K \<le> (n - 1) div K + 1"
  by (cases n) (auto simp: div_Suc)

lemma div_pred_ge: "((n::nat) - 1) div K \<le> n div K"
  by (simp add: div_le_mono)

lemma div_pow_gt1: "(1 < (n::nat) div 2 ^ h) = (h + 1 < floorlog 2 n)"
proof -
  have "(2 \<le> n div 2 ^ h) = (2 * 2 ^ h \<le> n)"
    by (simp add: less_eq_div_iff_mult_less_eq)
  also have "\<dots> = (\<not> n < 2 ^ (h + 1))" by auto
  also have "\<dots> = (\<not> floorlog 2 n \<le> h + 1)" by (simp add: floorlog_le_iff)
  finally show ?thesis by auto
qed

lemma div_pow_zero: "((n::nat) div 2 ^ h = 0) = (floorlog 2 n \<le> h)"
  by (simp add: floorlog_le_iff div_eq_0_iff)

lemma odd_div_pred:
  assumes "0 < (n::nat)" "odd (n div 2 ^ h)"
  shows "(n - 1) div 2 ^ (h + 1) = n div 2 ^ (h + 1)"
proof -
  let ?s = "n div 2 ^ h"
  have "(n - 1) div 2 ^ h = ?s \<or> (n - 1) div 2 ^ h = ?s - 1"
    using div_pred_le [of "2 ^ h" n] div_pred_ge [of n "2 ^ h"] by auto
  moreover have "(?s - 1) div 2 = ?s div 2" using assms(2) by (cases ?s) (auto elim: oddE)
  ultimately have "(n - 1) div 2 ^ h div 2 = ?s div 2" by auto
  then show ?thesis by (simp only: div_pow_Suc)
qed

lemma parents_of_Nil: "parents_of ops xs []"
  by (simp add: parents_of_def)

lemma parents_of_append: "parents_of ops xs ys \<Longrightarrow> parents_of ops (xs @ zs) ys"
  by (auto simp: parents_of_def nth_append)

lemma parents_of_snoc:
  "parents_of ops xs ys \<Longrightarrow> 2 * length ys + 1 < length xs \<Longrightarrow>
   CreateParentNode ops (xs ! (2 * length ys)) (xs ! (2 * length ys + 1)) = Some p \<Longrightarrow>
   parents_of ops xs (ys @ [p])"
  by (auto simp: parents_of_def nth_append less_Suc_eq)

lemma lev_0: "lev m 0 = layer_list (layer0 m)"
  by (simp add: lev_def)

lemma lev_Suc: "h < length (upperNodes m) \<Longrightarrow> lev m (Suc h) = layer_list (upperNodes m ! h)"
  by (simp add: lev_def)


lemma lev_upd_0 [simp]: "lev (m\<lparr>upperNodes := un\<rparr>) 0 = lev m 0"
  by (simp add: lev_def)

lemma Add_st_grow:
  assumes st: "Add_st ops n ht (max (floorlog 2 (n - 1) - 1) ht) m"
  defines "un \<equiv> (if ht = length (upperNodes m)
                  then vec_resize empty_layer (length (upperNodes m) + 1) (upperNodes m)
                  else upperNodes m)"
  shows "Add_st ops n ht (max (floorlog 2 (n - 1) - 1) (ht + 1)) (m\<lparr>upperNodes := un\<rparr>)"
proof (cases "ht = length (upperNodes m)")
  case False
  have len: "length (upperNodes m) = max (floorlog 2 (n - 1) - 1) ht"
    using st by (simp add: Add_st_def)
  with False have "max (floorlog 2 (n - 1) - 1) (ht + 1) = max (floorlog 2 (n - 1) - 1) ht"
    by (auto simp: max_def)
  moreover have "m\<lparr>upperNodes := un\<rparr> = m" using False by (simp add: un_def)
  ultimately show ?thesis using st by simp
next
  case True
  let ?U = "upperNodes m"
  have len: "length ?U = max (floorlog 2 (n - 1) - 1) ht"
    using st by (simp add: Add_st_def)
  have L: "floorlog 2 (n - 1) - 1 \<le> ht"
    using len True max.cobounded1 [of "floorlog 2 (n - 1) - 1" ht] by simp
  have un: "un = ?U @ [empty_layer]" using True by (simp add: un_def vec_resize_def)
  have z: "(n - 1) div 2 ^ (ht + 1) = 0"
    using L by (simp only: div_pow_zero)
  have newlen: "max (floorlog 2 (n - 1) - 1) (ht + 1) = ht + 1" using L by simp
  have levs: "\<And>h. h \<le> ht \<Longrightarrow> lev (m\<lparr>upperNodes := un\<rparr>) h = lev m h"
    using True un by (auto simp: lev_def nth_append split: nat.splits)
  have levn: "lev (m\<lparr>upperNodes := un\<rparr>) (ht + 1) = []"
    using True un by (simp add: lev_def nth_append layer_ok_empty)
  have old: "\<And>h. h < ht \<Longrightarrow>
      vSize (?U ! h) = (if h < ht then n else n - 1) div 2 ^ (h + 1)
      \<and> parents_of ops (lev m h) (lev m (h + 1))"
    using st True by (simp add: Add_st_def)
  show ?thesis
    unfolding Add_st_def newlen
  proof (intro conjI allI impI ballI)
    show "layer_ok (layer0 (m\<lparr>upperNodes := un\<rparr>))" using st by (simp add: Add_st_def)
    show "vSize (layer0 (m\<lparr>upperNodes := un\<rparr>)) = n" using st by (simp add: Add_st_def)
    show "0 < n" using st by (simp add: Add_st_def)
    show "n < 2 ^ 32" using st by (simp add: Add_st_def)
    show "length (upperNodes (m\<lparr>upperNodes := un\<rparr>)) = ht + 1" using True un by simp
  next
    fix l assume "l \<in> set (upperNodes (m\<lparr>upperNodes := un\<rparr>))"
    then show "layer_ok l" using st un by (auto simp: Add_st_def layer_ok_empty)
  next
    fix h assume h: "h < ht + 1"
    show "vSize (upperNodes (m\<lparr>upperNodes := un\<rparr>) ! h)
            = (if h < ht then n else n - 1) div 2 ^ (h + 1)"
    proof (cases "h < ht")
      case True
      then show ?thesis using old [OF True] \<open>ht = length ?U\<close> un by (simp add: nth_append)
    next
      case False
      with h have "h = ht" by simp
      then show ?thesis using z \<open>ht = length ?U\<close> un by (simp add: nth_append layer_ok_empty)
    qed
    show "parents_of ops (lev (m\<lparr>upperNodes := un\<rparr>) h) (lev (m\<lparr>upperNodes := un\<rparr>) (h + 1))"
    proof (cases "h < ht")
      case True
      then show ?thesis using old [OF True] levs [of h] levs [of "h + 1"] by simp
    next
      case False
      with h have "h = ht" by simp
      then show ?thesis using levn by (simp add: parents_of_Nil)
    qed
  qed
qed


lemma Add_loop_exit: "\<not> 1 < s \<Longrightarrow> Add_loop ops m ht s = Some m"
  by (subst Add_loop.simps) simp

lemma Add_loop_step:
  assumes st: "Add_st ops n ht (max (floorlog 2 (n - 1) - 1) ht) m" and gt: "1 < n div 2 ^ ht"
  shows "(Add_loop ops m ht (n div 2 ^ ht) = None \<and> \<not> cp_total ops)
       \<or> (\<exists>m1. Add_st ops n (ht + 1) (max (floorlog 2 (n - 1) - 1) (ht + 1)) m1
                \<and> layer0 m1 = layer0 m
                \<and> Add_loop ops m ht (n div 2 ^ ht) = Add_loop ops m1 (ht + 1) (n div 2 ^ (ht + 1)))"
proof -
  let ?s = "n div 2 ^ ht"
  let ?len = "max (floorlog 2 (n - 1) - 1) (ht + 1)"
  define un where "un = (if ht = length (upperNodes m)
                  then vec_resize empty_layer (length (upperNodes m) + 1) (upperNodes m)
                  else upperNodes m)"
  define m0 where "m0 = m\<lparr>upperNodes := un\<rparr>"
  have st0: "Add_st ops n ht ?len m0"
    unfolding m0_def un_def using st by (rule Add_st_grow)
  have npos: "0 < n" and n32: "n < 2 ^ 32" using st by (simp_all add: Add_st_def)
  have htle: "ht \<le> length (upperNodes m)" using st by (simp add: Add_st_def)
  have un_len: "length un = ?len" using st0 by (simp add: Add_st_def m0_def)
  have ht_lt: "ht < length un" using un_len by simp
  have un_ok: "\<And>l. l \<in> set un \<Longrightarrow> layer_ok l" using st0 by (simp add: Add_st_def m0_def)
  have l0_ok: "layer_ok (layer0 m)" and l0_sz: "vSize (layer0 m) = n"
    using st by (simp_all add: Add_st_def)
  have sizes: "\<And>h. h < ?len \<Longrightarrow> vSize (un ! h) = (if h < ht then n else n - 1) div 2 ^ (h + 1)"
    using st0 by (simp add: Add_st_def m0_def)
  have pars: "\<And>h. h < ?len \<Longrightarrow> parents_of ops (lev m0 h) (lev m0 (h + 1))"
    using st0 by (simp add: Add_st_def)
  define la where "la = un ! ht"
  define lb where "lb = (if ht \<noteq> 0 then un ! (ht - 1) else layer0 m)"
  have la_ok: "layer_ok la" using un_ok ht_lt by (simp add: la_def)
  have la_sz: "vSize la = (n - 1) div 2 ^ (ht + 1)" using sizes [of ht] by (simp add: la_def)
  have la_lt: "vSize la < 2 ^ 32"
  proof -
    have "vSize la \<le> n - 1" unfolding la_sz by (rule div_le_dividend)
    then show ?thesis using n32 by simp
  qed
  have la_lev: "layer_list la = lev m0 (ht + 1)"
    using ht_lt by (simp add: lev_def la_def m0_def)
  have lb_ok: "layer_ok lb" using un_ok ht_lt l0_ok by (auto simp: lb_def)
  have lb_sz: "vSize lb = ?s"
  proof (cases "ht = 0")
    case True
    then show ?thesis using l0_sz by (simp add: lb_def)
  next
    case False
    then have "ht - 1 < ?len" "ht - 1 < ht" by auto
    with sizes [of "ht - 1"] False show ?thesis by (simp add: lb_def)
  qed
  have lb_lev: "layer_list lb = lev m0 ht"
  proof (cases "ht = 0")
    case True
    then show ?thesis by (simp add: lb_def lev_def m0_def)
  next
    case False
    then obtain k where k: "ht = Suc k" by (cases ht) auto
    then show ?thesis using ht_lt by (simp add: lb_def lev_def m0_def)
  qed
  have c1: "(ht \<le> length (upperNodes m) \<and> 1 < ?s) = True" using htle gt by simp
  have va: "vec_at un ht = Some la" using ht_lt by (simp add: vec_at_def la_def)
  have vb: "(if ht \<noteq> 0 then vec_at un (ht - 1) else Some (layer0 m)) = Some lb"
    using ht_lt by (auto simp: vec_at_def lb_def)
  have c2: "(?s AND 1 = 0 \<and> layer_size la mod 2 ^ 32 < drop_bit 1 ?s)
            = (?s mod 2 = 0 \<and> vSize la mod 2 ^ 32 < ?s div 2)"
    by (simp add: and_one_nat drop_Suc0_nat layer_size_def)
  have body: "Add_loop ops m ht ?s =
     (if ?s mod 2 = 0 \<and> vSize la mod 2 ^ 32 < ?s div 2
      then (case layer_at lb (?s - 2) of
              None \<Rightarrow> None
            | Some nl \<Rightarrow>
                (case layer_at lb (?s - 2 + 1) of
                   None \<Rightarrow> None
                 | Some nr \<Rightarrow>
                     (case CreateParentNode ops nl nr of
                        None \<Rightarrow> None
                      | Some par \<Rightarrow>
                          (case push_back la par of
                             None \<Rightarrow> None
                           | Some la1 \<Rightarrow>
                               Add_loop ops (m\<lparr>upperNodes := un[ht := la1]\<rparr>) (ht + 1) (?s div 2)))))
      else Add_loop ops (m\<lparr>upperNodes := un\<rparr>) (ht + 1) (?s div 2))"
    by (subst Add_loop.simps)
       (simp only: c1 if_True Let_def un_def [symmetric] va vb option.case drop_one_nat
          and_one_nat layer_size_def)
  have sdiv: "?s div 2 = n div 2 ^ (ht + 1)" by (simp only: div_pow_Suc)
  have cur_le: "vSize la \<le> ?s div 2" unfolding la_sz sdiv by (rule div_pred_ge)
  have new_le: "?s div 2 \<le> vSize la + 1" unfolding la_sz sdiv by (rule div_pred_le) simp
  show ?thesis
  proof (cases "?s mod 2 = 0 \<and> vSize la mod 2 ^ 32 < ?s div 2")
    case False
    have eq: "vSize la = n div 2 ^ (ht + 1)"
    proof (cases "?s mod 2 = 0")
      case True
      with False la_lt have "\<not> vSize la < ?s div 2" by simp
      with cur_le show ?thesis by (simp add: sdiv)
    next
      case False
      then have "odd ?s" by (simp add: odd_iff_mod_2_eq_one)
      from odd_div_pred [OF npos this] show ?thesis by (simp add: la_sz)
    qed
    have "Add_st ops n (ht + 1) ?len m0"
      unfolding Add_st_def
    proof (intro conjI allI impI ballI)
      show "layer_ok (layer0 m0)" "vSize (layer0 m0) = n" "0 < n" "n < 2 ^ 32"
        "length (upperNodes m0) = ?len"
        using st0 by (simp_all add: Add_st_def)
    next
      fix l assume "l \<in> set (upperNodes m0)"
      then show "layer_ok l" using un_ok by (simp add: m0_def)
    next
      fix h assume h: "h < ?len"
      show "vSize (upperNodes m0 ! h) = (if h < ht + 1 then n else n - 1) div 2 ^ (h + 1)"
      proof (cases "h = ht")
        case True
        then show ?thesis using eq by (simp add: m0_def la_def)
      next
        case False
        then have "(h < ht + 1) = (h < ht)" by auto
        then show ?thesis using sizes [OF h] by (simp add: m0_def)
      qed
      show "parents_of ops (lev m0 h) (lev m0 (h + 1))" by (rule pars [OF h])
    qed
    moreover have "layer0 m0 = layer0 m" by (simp add: m0_def)
    moreover have "Add_loop ops m ht ?s = Add_loop ops m0 (ht + 1) (n div 2 ^ (ht + 1))"
    proof -
      have "Add_loop ops m ht ?s
          = Add_loop ops (m\<lparr>upperNodes := un\<rparr>) (ht + 1) (?s div 2)"
        by (rule trans [OF body if_not_P [OF False]])
      then show ?thesis by (simp only: m0_def sdiv)
    qed
    ultimately show ?thesis by blast
  next
    case True
    then have even: "?s mod 2 = 0" and lt: "vSize la < ?s div 2" using la_lt by simp_all
    have cur1: "vSize la + 1 = ?s div 2" using lt new_le by simp
    have gen: "\<And>(s::nat) c. s mod 2 = 0 \<Longrightarrow> c + 1 = s div 2 \<Longrightarrow> 2 * c + 2 = s"
      by presburger
    have s2: "2 * vSize la + 2 = ?s" using even cur1 by (rule gen)
    have rd: "layer_rd lb" using lb_ok by (rule layer_ok_rd)
    have i1: "?s - 2 = 2 * vSize la" and i2: "?s - 2 + 1 = 2 * vSize la + 1"
      and i3: "2 * vSize la + 1 < vSize lb"
      using s2 lb_sz by simp_all
    have r1: "layer_at lb (?s - 2) = Some (lev m0 ht ! (2 * vSize la))"
      unfolding i1 using i3 by (simp add: layer_at_rd [OF rd] lb_lev)
    have r2: "layer_at lb (?s - 2 + 1) = Some (lev m0 ht ! (2 * vSize la + 1))"
      unfolding i2 using i3 by (simp add: layer_at_rd [OF rd] lb_lev)
    show ?thesis
    proof (cases "CreateParentNode ops (lev m0 ht ! (2 * vSize la)) (lev m0 ht ! (2 * vSize la + 1))")
      case None
      then have "\<not> cp_total ops" by (auto simp: cp_total_def)
      moreover have "Add_loop ops m ht ?s = None"
      proof -
        have "Add_loop ops m ht ?s
          = (case layer_at lb (?s - 2) of
              None \<Rightarrow> None
            | Some nl \<Rightarrow>
                (case layer_at lb (?s - 2 + 1) of
                   None \<Rightarrow> None
                 | Some nr \<Rightarrow>
                     (case CreateParentNode ops nl nr of
                        None \<Rightarrow> None
                      | Some par \<Rightarrow>
                          (case push_back la par of
                             None \<Rightarrow> None
                           | Some la1 \<Rightarrow>
                               Add_loop ops (m\<lparr>upperNodes := un[ht := la1]\<rparr>) (ht + 1) (?s div 2)))))"
          by (rule trans [OF body if_P [OF True]])
        then show ?thesis by (simp only: r1 r2 None option.case)
      qed
      ultimately show ?thesis by blast
    next
      case (Some par)
      have "vSize la + 1 < 2 ^ 64" using la_lt by simp
      from push_back_ok [OF la_ok this, of par] obtain la1 where
        pb: "push_back la par = Some la1" and la1_ok: "layer_ok la1" and
        la1_list: "layer_list la1 = layer_list la @ [par]"
        by blast
      have la1_sz: "vSize la1 = vSize la + 1"
        using la1_list length_layer_list [of la1] by simp
      define m1 where "m1 = m\<lparr>upperNodes := un[ht := la1]\<rparr>"
      have cont: "Add_loop ops m ht ?s = Add_loop ops m1 (ht + 1) (n div 2 ^ (ht + 1))"
      proof -
        have "Add_loop ops m ht ?s
          = (case layer_at lb (?s - 2) of
              None \<Rightarrow> None
            | Some nl \<Rightarrow>
                (case layer_at lb (?s - 2 + 1) of
                   None \<Rightarrow> None
                 | Some nr \<Rightarrow>
                     (case CreateParentNode ops nl nr of
                        None \<Rightarrow> None
                      | Some par \<Rightarrow>
                          (case push_back la par of
                             None \<Rightarrow> None
                           | Some la1 \<Rightarrow>
                               Add_loop ops (m\<lparr>upperNodes := un[ht := la1]\<rparr>) (ht + 1) (?s div 2)))))"
          by (rule trans [OF body if_P [OF True]])
        then show ?thesis by (simp only: r1 r2 Some pb option.case m1_def sdiv)
      qed
      have lev1: "\<And>h. h \<noteq> ht + 1 \<Longrightarrow> lev m1 h = lev m0 h"
        by (auto simp: lev_def m1_def m0_def split: nat.splits)
      have lev1': "lev m1 (ht + 1) = lev m0 (ht + 1) @ [par]"
        using ht_lt la1_list la_lev by (simp add: lev_def m1_def)
      have len_lev: "length (lev m0 ht) = ?s" using lb_lev lb_sz length_layer_list [of lb] by simp
      have len_la: "length (lev m0 (ht + 1)) = vSize la" using la_lev length_layer_list [of la] by simp
      have "Add_st ops n (ht + 1) ?len m1"
        unfolding Add_st_def
      proof (intro conjI allI impI ballI)
        show "layer_ok (layer0 m1)" "vSize (layer0 m1) = n" "0 < n" "n < 2 ^ 32"
          using l0_ok l0_sz npos n32 by (simp_all add: m1_def)
        show "length (upperNodes m1) = ?len" using un_len by (simp add: m1_def)
      next
        fix l assume "l \<in> set (upperNodes m1)"
        then have "l \<in> insert la1 (set un)"
          using set_update_subset_insert [of un ht la1] by (auto simp: m1_def)
        then show "layer_ok l" using un_ok la1_ok by auto
      next
        fix h assume h: "h < ?len"
        show "vSize (upperNodes m1 ! h) = (if h < ht + 1 then n else n - 1) div 2 ^ (h + 1)"
        proof (cases "h = ht")
          case True
          then show ?thesis using la1_sz cur1 ht_lt by (simp add: m1_def sdiv)
        next
          case False
          then have "(h < ht + 1) = (h < ht)" by auto
          then show ?thesis using sizes [OF h] False by (simp add: m1_def)
        qed
        show "parents_of ops (lev m1 h) (lev m1 (h + 1))"
        proof (cases "h = ht")
          case True
          have "parents_of ops (lev m0 ht) (lev m0 (ht + 1) @ [par])"
          proof (rule parents_of_snoc)
            show "parents_of ops (lev m0 ht) (lev m0 (ht + 1))" using pars [of ht] by simp
            show "2 * length (lev m0 (ht + 1)) + 1 < length (lev m0 ht)"
              using len_lev len_la s2 by simp
            show "CreateParentNode ops (lev m0 ht ! (2 * length (lev m0 (ht + 1))))
                    (lev m0 ht ! (2 * length (lev m0 (ht + 1)) + 1)) = Some par"
              using Some len_la by simp
          qed
          then show ?thesis using True lev1 [of ht] lev1' by simp
        next
          case False
          show ?thesis
          proof (cases "h = ht + 1")
            case True
            have "parents_of ops (lev m0 (ht + 1) @ [par]) (lev m0 (ht + 2))"
              using pars [OF h] True by (simp add: parents_of_append)
            then show ?thesis using True lev1 [of "ht + 2"] lev1' by simp
          next
            case F2: False
            with False have "h + 1 \<noteq> ht + 1" by simp
            then show ?thesis using pars [OF h] lev1 [of h] lev1 [of "h + 1"] F2 by simp
          qed
        qed
      qed
      moreover have "layer0 m1 = layer0 m" by (simp add: m1_def)
      ultimately show ?thesis using cont by blast
    qed
  qed
qed


lemma Add_st_exit:
  assumes st: "Add_st ops n ht (max (floorlog 2 (n - 1) - 1) ht) m"
    and le: "ht \<le> floorlog 2 n - 1" and ex: "\<not> 1 < n div 2 ^ ht"
  shows "mmr_ok ops m"
proof -
  have "\<not> ht + 1 < floorlog 2 n" using ex unfolding div_pow_gt1 .
  with le have ht: "ht = floorlog 2 n - 1" by simp
  have "floorlog 2 (n - 1) \<le> floorlog 2 n" by (rule floorlog_mono) simp
  then have len: "max (floorlog 2 (n - 1) - 1) ht = floorlog 2 n - 1" using ht by simp
  have sz: "mmr_size m = n" using st by (simp add: Add_st_def mmr_size_def layer_size_def)
  show ?thesis
    unfolding mmr_ok_def mmr_shape_def sz
    using st ht unfolding Add_st_def len by auto
qed

lemma Add_loop_correct:
  assumes "Add_st ops n ht (max (floorlog 2 (n - 1) - 1) ht) m" and "ht \<le> floorlog 2 n - 1"
  shows "(\<forall>m'. Add_loop ops m ht (n div 2 ^ ht) = Some m' \<longrightarrow> mmr_ok ops m' \<and> layer0 m' = layer0 m)
       \<and> (cp_total ops \<longrightarrow> Add_loop ops m ht (n div 2 ^ ht) \<noteq> None)"
  using assms
proof (induction "floorlog 2 n - ht" arbitrary: ht m rule: less_induct)
  case less
  show ?case
  proof (cases "1 < n div 2 ^ ht")
    case False
    then have "Add_loop ops m ht (n div 2 ^ ht) = Some m" by (rule Add_loop_exit)
    moreover have "mmr_ok ops m" using less.prems False by (rule Add_st_exit)
    ultimately show ?thesis by simp
  next
    case True
    then have lt: "ht + 1 < floorlog 2 n" by (simp only: div_pow_gt1)
    from Add_loop_step [OF less.prems(1) True] show ?thesis
    proof
      assume "Add_loop ops m ht (n div 2 ^ ht) = None \<and> \<not> cp_total ops"
      then show ?thesis by simp
    next
      assume "\<exists>m1. Add_st ops n (ht + 1) (max (floorlog 2 (n - 1) - 1) (ht + 1)) m1
                \<and> layer0 m1 = layer0 m
                \<and> Add_loop ops m ht (n div 2 ^ ht) = Add_loop ops m1 (ht + 1) (n div 2 ^ (ht + 1))"
      then obtain m1 where
        st1: "Add_st ops n (ht + 1) (max (floorlog 2 (n - 1) - 1) (ht + 1)) m1" and
        l0: "layer0 m1 = layer0 m" and
        eq: "Add_loop ops m ht (n div 2 ^ ht) = Add_loop ops m1 (ht + 1) (n div 2 ^ (ht + 1))"
        by blast
      have dec: "floorlog 2 n - (ht + 1) < floorlog 2 n - ht" using lt by simp
      have le1: "ht + 1 \<le> floorlog 2 n - 1" using lt by simp
      from less.hyps [OF dec st1 le1] show ?thesis using eq l0 by simp
    qed
  qed
qed

lemma floorlog_0: "floorlog 2 0 = 0"
  by (simp add: floorlog_def)

lemma floorlog_pos: "0 < n \<Longrightarrow> 0 < floorlog 2 n"
  using floorlog_eq_zero_iff [of 2 n] by simp

lemma mmr_ok_empty: "mmr_ok ops empty_mmr"
  by (simp add: mmr_ok_def mmr_shape_def empty_mmr_def layer_ok_empty mmr_size_def layer_size_def
      floorlog_0)

lemma lev_empty: "lev empty_mmr 0 = []"
  by (simp add: lev_def empty_mmr_def layer_ok_empty)

lemma mmr_size_lev: "mmr_size m = length (lev m 0)"
  by (simp add: mmr_size_def layer_size_def lev_def)

lemma Add_ok:
  assumes ok: "mmr_ok ops m" and bound: "mmr_size m + 1 < 2 ^ 32"
  shows "(\<forall>m' i. Add ops m x = Some (m', i) \<longrightarrow>
            mmr_ok ops m' \<and> lev m' 0 = lev m 0 @ [x] \<and> i = mmr_size m)
       \<and> (cp_total ops \<longrightarrow> Add ops m x \<noteq> None)"
proof -
  let ?n = "mmr_size m"
  have l0: "layer_ok (layer0 m)" and sh: "mmr_shape ops m"
    and ups: "\<And>l. l \<in> set (upperNodes m) \<Longrightarrow> layer_ok l"
    using ok by (simp_all add: mmr_ok_def)
  have vs: "vSize (layer0 m) = ?n" by (simp add: mmr_size_def layer_size_def)
  have "vSize (layer0 m) + 1 < 2 ^ 64" using bound vs by simp
  from push_back_ok [OF l0 this, of x] obtain l0' where
    pb: "push_back (layer0 m) x = Some l0'" and l0'_ok: "layer_ok l0'" and
    l0'_list: "layer_list l0' = layer_list (layer0 m) @ [x]"
    by blast
  have l0'_sz: "vSize l0' = ?n + 1" using l0'_list length_layer_list [of l0'] vs by simp
  define ma where "ma = m\<lparr>layer0 := l0'\<rparr>"
  have lev_a0: "lev ma 0 = lev m 0 @ [x]" using l0'_list by (simp add: lev_def ma_def)
  have lev_aS: "\<And>h. lev ma (Suc h) = lev m (Suc h)" by (simp add: lev_def ma_def)
  have len: "length (upperNodes m) = floorlog 2 ?n - 1" using sh by (simp add: mmr_shape_def)
  have st: "Add_st ops (?n + 1) 0 (max (floorlog 2 (?n + 1 - 1) - 1) 0) ma"
    unfolding Add_st_def
  proof (intro conjI allI impI ballI)
    show "layer_ok (layer0 ma)" using l0'_ok by (simp add: ma_def)
    show "vSize (layer0 ma) = ?n + 1" using l0'_sz by (simp add: ma_def)
    show "0 < ?n + 1" by simp
    show "?n + 1 < 2 ^ 32" by (rule bound)
    show "length (upperNodes ma) = max (floorlog 2 (?n + 1 - 1) - 1) 0" using len by (simp add: ma_def)
  next
    fix l assume "l \<in> set (upperNodes ma)"
    then show "layer_ok l" using ups by (simp add: ma_def)
  next
    fix h assume "h < max (floorlog 2 (?n + 1 - 1) - 1) 0"
    then have h: "h < length (upperNodes m)" using len by simp
    from sh h have a: "vSize (upperNodes m ! h) = ?n div 2 ^ (h + 1)"
      and b: "parents_of ops (lev m h) (lev m (h + 1))"
      by (simp_all add: mmr_shape_def)
    show "vSize (upperNodes ma ! h) = (if h < 0 then ?n + 1 else ?n + 1 - 1) div 2 ^ (h + 1)"
      using a by (simp add: ma_def)
    show "parents_of ops (lev ma h) (lev ma (h + 1))"
    proof (cases h)
      case 0
      then show ?thesis using b lev_a0 lev_aS [of 0] by (simp add: parents_of_append)
    next
      case (Suc k)
      then show ?thesis using b lev_aS [of k] lev_aS [of "Suc k"] by simp
    qed
  qed
  have le0: "0 \<le> floorlog 2 (?n + 1) - 1" by simp
  from Add_loop_correct [OF st le0]
  have loop: "\<And>m'. Add_loop ops ma 0 (?n + 1) = Some m' \<Longrightarrow> mmr_ok ops m' \<and> layer0 m' = layer0 ma"
    and tot: "cp_total ops \<Longrightarrow> Add_loop ops ma 0 (?n + 1) \<noteq> None"
    by simp_all
  have ls: "layer_size l0' mod 2 ^ 32 = ?n + 1" using l0'_sz bound by (simp add: layer_size_def)
  have addeq: "Add ops m x =
      (case Add_loop ops ma 0 (?n + 1) of
         None \<Rightarrow> None
       | Some m' \<Rightarrow> Some (m', (layer_size (layer0 m') + 2 ^ 64 - 1) mod 2 ^ 64))"
    by (simp only: Add_def pb option.case ls ma_def)
  show ?thesis
  proof (intro conjI allI impI)
    fix m' i assume r: "Add ops m x = Some (m', i)"
    then have lp: "Add_loop ops ma 0 (?n + 1) = Some m'"
      and i: "i = (layer_size (layer0 m') + 2 ^ 64 - 1) mod 2 ^ 64"
      unfolding addeq by (auto split: option.splits)
    from loop [OF lp] have ok': "mmr_ok ops m'" and l0m: "layer0 m' = layer0 ma" by simp_all
    have lev0: "lev m' 0 = lev m 0 @ [x]" using l0m lev_a0 by (simp add: lev_def)
    have "layer_size (layer0 m') = ?n + 1" using l0m l0'_sz by (simp add: ma_def layer_size_def)
    then have "i = ?n" using i bound by simp
    with ok' lev0 show "mmr_ok ops m'" "lev m' 0 = lev m 0 @ [x]" "i = ?n" by simp_all
  next
    assume "cp_total ops"
    from tot [OF this] show "Add ops m x \<noteq> None"
      unfolding addeq by (auto split: option.splits)
  qed
qed

lemma Add_all_ok:
  assumes "mmr_ok ops m" and "mmr_size m + length xs < 2 ^ 32"
  shows "(\<forall>m'. Add_all ops m xs = Some m' \<longrightarrow> mmr_ok ops m' \<and> lev m' 0 = lev m 0 @ xs)
       \<and> (cp_total ops \<longrightarrow> Add_all ops m xs \<noteq> None)"
  using assms
proof (induction xs arbitrary: m)
  case Nil
  then show ?case by simp
next
  case (Cons x xs)
  have b1: "mmr_size m + 1 < 2 ^ 32" using Cons.prems(2) by simp
  note A = Add_ok [OF Cons.prems(1) b1, of x]
  show ?case
  proof (cases "Add ops m x")
    case None
    with A show ?thesis by simp
  next
    case (Some r)
    obtain m1 i where r: "r = (m1, i)" by (cases r)
    from A Some r have ok1: "mmr_ok ops m1" and lev1: "lev m1 0 = lev m 0 @ [x]" by simp_all
    have sz1: "mmr_size m1 = mmr_size m + 1" using lev1 by (simp add: mmr_size_lev)
    have b2: "mmr_size m1 + length xs < 2 ^ 32" using Cons.prems(2) sz1 by simp
    from Cons.IH [OF ok1 b2] Some r lev1 show ?thesis by simp
  qed
qed

lemma cp_total_plain: "cp_total (CDefaultMMRNode H)"
  by (simp add: cp_total_def CDefaultMMRNode_def)

lemma height_ok: "mmr_ok ops m \<Longrightarrow> height m = floorlog 2 (mmr_size m)"
proof -
  assume ok: "mmr_ok ops m"
  then have len: "length (upperNodes m) = floorlog 2 (mmr_size m) - 1" and b: "mmr_size m < 2 ^ 32"
    by (simp_all add: mmr_ok_def mmr_shape_def)
  have "floorlog 2 (mmr_size m) \<le> 32" using b by (simp add: floorlog_le_iff)
  then show ?thesis using len floorlog_pos [of "mmr_size m"]
    by (cases "mmr_size m = 0") (auto simp: height_def mmr_size_def floorlog_0)
qed

section \<open>Size and height after appends (C6)\<close>

lemma ceil_log2_3: "\<lceil>log 2 (real 3)\<rceil> = 2"
proof -
  have a: "1 < log 2 3" using log_less_cancel_iff [of 2 2 3] by simp
  have "log 2 3 \<le> log 2 4" by simp
  also have "log 2 4 = 2" using log_nat_power [of 2 2 2] by simp
  finally have b: "log 2 3 \<le> 2" .
  show ?thesis using a b by (simp add: ceiling_eq_iff)
qed

text \<open>
  C6, as the code has it. After \<open>N < 2 ^ 32\<close> appends to a fresh range that all return,
  \<^verbatim>\<open>size()\<close> is \<open>N\<close> and \<^verbatim>\<open>height()\<close> is \<open>floor (log2 N) + 1\<close> for \<open>N > 0\<close>
  and 0 for \<open>N = 0\<close>; with a node type whose \<^verbatim>\<open>CreateParentNode\<close> never fails (the
  plain node) every append returns. The bound is the range of the \<^verbatim>\<open>uint32_t\<close> layer
  sizes of \<^verbatim>\<open>Add\<close>.
\<close>

theorem Add_size_and_height:
  assumes "length xs < 2 ^ 32"
  shows "(\<forall>m. Add_all ops empty_mmr xs = Some m \<longrightarrow>
            mmr_size m = length xs
            \<and> height m = (if length xs = 0 then 0 else nat \<lfloor>log 2 (real (length xs))\<rfloor> + 1))
       \<and> ((\<forall>a b. CreateParentNode ops a b \<noteq> None) \<longrightarrow> (\<exists>m. Add_all ops empty_mmr xs = Some m))"
proof -
  have b: "mmr_size (empty_mmr :: 'a CMerkleMountainRange) + length xs < 2 ^ 32"
    using assms by (simp add: mmr_size_lev lev_empty)
  note A = Add_all_ok [OF mmr_ok_empty b, of ops]
  have fl: "floorlog 2 (length xs) = (if length xs = 0 then 0 else nat \<lfloor>log 2 (real (length xs))\<rfloor> + 1)"
    by (simp add: floorlog_def)
  show ?thesis
  proof (intro conjI allI impI)
    fix m assume r: "Add_all ops empty_mmr xs = Some m"
    with A have ok: "mmr_ok ops m" and l: "lev m 0 = lev empty_mmr 0 @ xs" by simp_all
    show "mmr_size m = length xs" using l by (simp add: mmr_size_lev lev_empty)
    then show "height m = (if length xs = 0 then 0 else nat \<lfloor>log 2 (real (length xs))\<rfloor> + 1)"
      using height_ok [OF ok] fl by simp
  next
    assume "\<forall>a b. CreateParentNode ops a b \<noteq> None"
    then have "cp_total ops" by (simp add: cp_total_def)
    with A show "\<exists>m. Add_all ops empty_mmr xs = Some m" by auto
  qed
qed

lemma three_leaves:
  "Add_all (CDefaultMMRNode toy_hash) empty_mmr [CMMRNode 1, CMMRNode 2, CMMRNode 3]
     = Some \<lparr> upperNodes = [\<lparr> vSize = 1, nodes = [[CMMRNode 20]] \<rparr>],
              layer0 = \<lparr> vSize = 3, nodes = [[CMMRNode 1, CMMRNode 2, CMMRNode 3]] \<rparr> \<rparr>"
  by (simp add: mmr_eval plain_eval)

theorem Add_size_and_height_witness:
  "\<exists>m. Add_all (CDefaultMMRNode toy_hash) empty_mmr [CMMRNode 1, CMMRNode 2, CMMRNode 3] = Some m
       \<and> mmr_size m = 3 \<and> height m = 2 \<and> nat \<lfloor>log 2 (real 3)\<rfloor> + 1 = 2"
proof -
  let ?xs = "[CMMRNode 1, CMMRNode 2, CMMRNode 3]"
  let ?m = "\<lparr> upperNodes = [\<lparr> vSize = 1, nodes = [[CMMRNode 20]] \<rparr>],
              layer0 = \<lparr> vSize = 3, nodes = [[CMMRNode 1, CMMRNode 2, CMMRNode 3]] \<rparr> \<rparr>"
  have len: "length ?xs < 2 ^ 32" by simp
  have h2: "height ?m = 2" by (simp add: height_def layer_size_def)
  from Add_size_and_height [OF len, of "CDefaultMMRNode toy_hash"] three_leaves
  have "mmr_size ?m = 3" and "height ?m = nat \<lfloor>log 2 (real 3)\<rfloor> + 1" by simp_all
  with h2 three_leaves show ?thesis by simp
qed

text \<open>
  The claim as stated, with \<open>ceil (log2 N) + 1\<close>, fails at three appends: the height is 2.
\<close>

theorem height_is_not_ceiling_counterexample:
  "\<exists>m. Add_all (CDefaultMMRNode toy_hash) empty_mmr [CMMRNode 1, CMMRNode 2, CMMRNode 3] = Some m
       \<and> height m = 2 \<and> nat \<lceil>log 2 (real 3)\<rceil> + 1 = 3
       \<and> height m \<noteq> nat \<lceil>log 2 (real (length [CMMRNode 1, CMMRNode 2, CMMRNode 3]))\<rceil> + 1"
proof -
  let ?m = "\<lparr> upperNodes = [\<lparr> vSize = 1, nodes = [[CMMRNode 20]] \<rparr>],
              layer0 = \<lparr> vSize = 3, nodes = [[CMMRNode 1, CMMRNode 2, CMMRNode 3]] \<rparr> \<rparr>"
  have h2: "height ?m = 2" by (simp add: height_def layer_size_def)
  have c: "nat \<lceil>log 2 (real 3)\<rceil> + 1 = 3" using ceil_log2_3 by simp
  from three_leaves h2 c show ?thesis by simp
qed

section \<open>Halving sequences and reads of a well-formed range\<close>

lemma halving_0: "halving 0 = []"
  by (subst halving.simps) simp

lemma halving_pos: "0 < v \<Longrightarrow> halving v = v # halving (v div 2)"
  by (subst halving.simps) (simp add: drop_bit_eq_div)

lemma floorlog_half: "0 < v \<Longrightarrow> floorlog 2 v = Suc (floorlog 2 (v div 2))"
  by (subst compute_floorlog) simp

lemma length_halving: "length (halving v) = floorlog 2 v"
proof (induction v rule: less_induct)
  case (less v)
  show ?case
  proof (cases "v = 0")
    case True
    then show ?thesis by (simp add: halving_0 floorlog_0)
  next
    case False
    then have "v div 2 < v" by simp
    from less [OF this] False show ?thesis by (simp add: halving_pos floorlog_half)
  qed
qed

lemma halving_nth: "j < floorlog 2 v \<Longrightarrow> halving v ! j = v div 2 ^ j"
proof (induction v arbitrary: j rule: less_induct)
  case (less v)
  then have pos: "0 < v" by (cases "v = 0") (auto simp: floorlog_0)
  then have lt: "v div 2 < v" by simp
  show ?case
  proof (cases j)
    case 0
    then show ?thesis using pos by (simp add: halving_pos)
  next
    case (Suc i)
    then have "i < floorlog 2 (v div 2)" using less.prems pos by (simp add: floorlog_half)
    from less.IH [OF lt this] Suc pos show ?thesis
      by (simp add: halving_pos div_mult2_eq)
  qed
qed

text \<open>The sizes a constructor or \<^verbatim>\<open>Truncate\<close> computes.\<close>

lemma sizes_length: "length (v # halving (drop_bit 1 v)) = (if v = 0 then 1 else floorlog 2 v)"
  by (cases "v = 0") (simp_all add: halving_0 length_halving drop_bit_eq_div floorlog_half)


lemma sizes_nth:
  "j < length (v # halving (drop_bit 1 v)) \<Longrightarrow> (v # halving (drop_bit 1 v)) ! j = v div 2 ^ j"
proof (cases j)
  case 0
  then show ?thesis by simp
next
  case (Suc i)
  assume "j < length (v # halving (drop_bit 1 v))"
  then have "i < floorlog 2 (v div 2)" using Suc by (simp add: length_halving drop_bit_eq_div)
  then show ?thesis using Suc by (simp add: halving_nth drop_bit_eq_div div_mult2_eq)
qed

definition node_at :: "'n node_ops \<Rightarrow> 'n CMerkleMountainRange \<Rightarrow> nat \<Rightarrow> nat \<Rightarrow> 'n" where
  "node_at ops m h i = (if i < length (lev m h) then lev m h ! i else default_node ops)"

lemma height_shape: "mmr_shape ops m \<Longrightarrow> height m = floorlog 2 (mmr_size m)"
proof -
  assume sh: "mmr_shape ops m"
  then have len: "length (upperNodes m) = floorlog 2 (mmr_size m) - 1" and b: "mmr_size m < 2 ^ 32"
    by (simp_all add: mmr_shape_def)
  have "floorlog 2 (mmr_size m) \<le> 32" using b by (simp add: floorlog_le_iff)
  then show ?thesis using len floorlog_pos [of "mmr_size m"]
    by (cases "mmr_size m = 0") (auto simp: height_def mmr_size_def floorlog_0)
qed

lemma GetNode_rd:
  assumes rd: "mmr_rd ops m"
  shows "GetNode ops m h i = Some (node_at ops m h i)"
proof -
  have sh: "mmr_shape ops m" and l0: "layer_rd (layer0 m)"
    and ups: "\<And>l. l \<in> set (upperNodes m) \<Longrightarrow> layer_rd l"
    using rd by (simp_all add: mmr_rd_def)
  have ht: "height m = floorlog 2 (mmr_size m)" using sh by (rule height_shape)
  have len: "length (upperNodes m) = floorlog 2 (mmr_size m) - 1" using sh by (simp add: mmr_shape_def)
  show ?thesis
  proof (cases "h < height m")
    case False
    have "lev m h = []"
    proof (cases h)
      case 0
      with False ht have "mmr_size m = 0" using floorlog_pos [of "mmr_size m"] by auto
      then show ?thesis using 0 by (simp add: mmr_size_lev)
    next
      case (Suc k)
      with False ht len have "\<not> k < length (upperNodes m)" by simp
      then show ?thesis using Suc by (simp add: lev_def)
    qed
    then show ?thesis using False by (simp add: GetNode_def Let_def node_at_def)
  next
    case True
    show ?thesis
    proof (cases h)
      case 0
      then show ?thesis using True
        by (simp add: GetNode_def Let_def node_at_def layer_at_rd [OF l0] lev_def layer_size_def)
    next
      case (Suc k)
      with True ht len have k: "k < length (upperNodes m)" by simp
      then have "layer_rd (upperNodes m ! k)" using ups by simp
      then show ?thesis using True Suc k
        by (simp add: GetNode_def Let_def node_at_def layer_at_rd lev_def layer_size_def vec_at_def)
    qed
  qed
qed

lemma mmr_ok_rd: "mmr_ok ops m \<Longrightarrow> mmr_rd ops m"
  by (auto simp: mmr_ok_def mmr_rd_def layer_ok_rd)

lemma lev_length:
  assumes "mmr_shape ops m"
  shows "length (lev m h) = (if h < floorlog 2 (mmr_size m) \<or> h = 0 then mmr_size m div 2 ^ h else 0)"
proof (cases h)
  case 0
  then show ?thesis by (simp add: mmr_size_lev)
next
  case (Suc k)
  have len: "length (upperNodes m) = floorlog 2 (mmr_size m) - 1"
    using assms by (simp add: mmr_shape_def)
  show ?thesis
  proof (cases "k < length (upperNodes m)")
    case True
    then have "vSize (upperNodes m ! k) = mmr_size m div 2 ^ (k + 1)"
      using assms by (simp add: mmr_shape_def)
    then show ?thesis using True Suc len by (simp add: lev_def)
  next
    case False
    then show ?thesis using Suc len by (auto simp: lev_def)
  qed
qed

lemma shape_unique:
  assumes a: "mmr_shape ops m" and b: "mmr_shape ops m'" and base: "lev m 0 = lev m' 0"
  shows "lev m h = lev m' h"
proof (induction h)
  case 0
  show ?case by (rule base)
next
  case (Suc h)
  have sz: "mmr_size m = mmr_size m'" using base by (simp add: mmr_size_lev)
  have len: "length (lev m (Suc h)) = length (lev m' (Suc h))"
    using lev_length [OF a, of "Suc h"] lev_length [OF b, of "Suc h"] sz by simp
  show ?case
  proof (rule nth_equalityI [OF len])
    fix i assume i: "i < length (lev m (Suc h))"
    then have h: "h < length (upperNodes m)" by (auto simp: lev_def split: if_splits)
    have h': "h < length (upperNodes m')"
      using i len by (auto simp: lev_def split: if_splits)
    from a h have pa: "parents_of ops (lev m h) (lev m (h + 1))" by (simp add: mmr_shape_def)
    from b h' have pb: "parents_of ops (lev m' h) (lev m' (h + 1))" by (simp add: mmr_shape_def)
    from pa i have "CreateParentNode ops (lev m h ! (2 * i)) (lev m h ! (2 * i + 1))
        = Some (lev m (Suc h) ! i)" by (simp add: parents_of_def)
    moreover from pb i len have "CreateParentNode ops (lev m' h ! (2 * i)) (lev m' h ! (2 * i + 1))
        = Some (lev m' (Suc h) ! i)" by (simp add: parents_of_def)
    ultimately show "lev m (Suc h) ! i = lev m' (Suc h) ! i" using Suc.IH by simp
  qed
qed


section \<open>Truncate (C7)\<close>

lemma Truncate_loop_ok:
  assumes "\<And>j. i \<le> j \<Longrightarrow> j < length un \<Longrightarrow>
             j + 1 < length szs \<and> (\<exists>l. resize d (un ! j) (szs ! (j + 1)) = Some l)"
  shows "\<exists>un'. Truncate_loop d szs i un = Some un' \<and> length un' = length un
           \<and> (\<forall>j < i. un' ! j = un ! j)
           \<and> (\<forall>j. i \<le> j \<longrightarrow> j < length un \<longrightarrow> resize d (un ! j) (szs ! (j + 1)) = Some (un' ! j))"
  using assms
proof (induction "length un - i" arbitrary: i un rule: less_induct)
  case less
  show ?case
  proof (cases "i < length un")
    case False
    then have "Truncate_loop d szs i un = Some un" by (subst Truncate_loop.simps) simp
    then show ?thesis using False by auto
  next
    case True
    from less.prems [of i] True obtain l where
      inr: "i + 1 < length szs" and rs: "resize d (un ! i) (szs ! (i + 1)) = Some l"
      by auto
    let ?un1 = "un[i := l]"
    have unf: "Truncate_loop d szs i un = Truncate_loop d szs (i + 1) ?un1"
      using True inr rs by (subst Truncate_loop.simps) (simp add: vec_at_def)
    have dec: "length ?un1 - (i + 1) < length un - i" using True by simp
    have pre: "\<And>j. i + 1 \<le> j \<Longrightarrow> j < length ?un1 \<Longrightarrow>
             j + 1 < length szs \<and> (\<exists>l. resize d (?un1 ! j) (szs ! (j + 1)) = Some l)"
      using less.prems by simp
    from less.hyps [OF dec pre] obtain un' where
      r: "Truncate_loop d szs (i + 1) ?un1 = Some un'" and len: "length un' = length ?un1"
      and lo: "\<forall>j < i + 1. un' ! j = ?un1 ! j"
      and hi: "\<forall>j. i + 1 \<le> j \<longrightarrow> j < length ?un1 \<longrightarrow>
                 resize d (?un1 ! j) (szs ! (j + 1)) = Some (un' ! j)"
      by blast
    have a: "\<forall>j < i. un' ! j = un ! j" using lo by simp
    have b: "\<forall>j. i \<le> j \<longrightarrow> j < length un \<longrightarrow> resize d (un ! j) (szs ! (j + 1)) = Some (un' ! j)"
    proof (intro allI impI)
      fix j assume j: "i \<le> j" "j < length un"
      show "resize d (un ! j) (szs ! (j + 1)) = Some (un' ! j)"
      proof (cases "j = i")
        case True
        then have "un' ! j = l" using lo \<open>i < length un\<close> by simp
        then show ?thesis using rs True by simp
      next
        case False
        then have "i + 1 \<le> j" using j by simp
        with hi j False show ?thesis by simp
      qed
    qed
    from unf r len a b show ?thesis by simp
  qed
qed

lemma parents_of_take:
  assumes "parents_of ops xs ys" and "b \<le> a div 2"
  shows "parents_of ops (take a xs) (take b ys)"
  unfolding parents_of_def
proof (intro allI impI)
  fix i assume i: "i < length (take b ys)"
  then have iy: "i < length ys" and ib: "i < b" by simp_all
  from assms(1) iy have x: "2 * i + 1 < length xs"
    and cp: "CreateParentNode ops (xs ! (2 * i)) (xs ! (2 * i + 1)) = Some (ys ! i)"
    by (simp_all add: parents_of_def)
  have "2 * i + 1 < a" using ib assms(2) by linarith
  then show "2 * i + 1 < length (take a xs)
      \<and> CreateParentNode ops (take a xs ! (2 * i)) (take a xs ! (2 * i + 1)) = Some (take b ys ! i)"
    using x cp ib by simp
qed

lemma Truncate_ok:
  assumes rd: "mmr_rd ops m" and lt: "k < mmr_size m"
  shows "\<exists>m'. Truncate ops m k = Some m' \<and> mmr_rd ops m' \<and> lev m' 0 = take k (lev m 0)"
proof -
  let ?n = "mmr_size m"
  let ?d = "default_node ops"
  let ?U = "upperNodes m"
  define szs where "szs = k # halving (drop_bit 1 k)"
  have sh: "mmr_shape ops m" and l0: "layer_rd (layer0 m)"
    and ups: "\<And>l. l \<in> set ?U \<Longrightarrow> layer_rd l"
    using rd by (simp_all add: mmr_rd_def)
  have n32: "?n < 2 ^ 32" and lenU: "length ?U = floorlog 2 ?n - 1"
    and szU: "\<And>h. h < length ?U \<Longrightarrow> vSize (?U ! h) = ?n div 2 ^ (h + 1)"
    and paU: "\<And>h. h < length ?U \<Longrightarrow> parents_of ops (lev m h) (lev m (h + 1))"
    using sh by (simp_all add: mmr_shape_def)
  have szs_len: "length szs = (if k = 0 then 1 else floorlog 2 k)"
    unfolding szs_def by (rule sizes_length)
  have szs0: "szs ! 0 = k" by (simp add: szs_def)
  have lszs: "length szs - 1 = floorlog 2 k - 1"
    by (cases "k = 0") (simp_all add: szs_len floorlog_0)
  have mono: "floorlog 2 k \<le> floorlog 2 ?n" using lt by (intro floorlog_mono) simp
  define un where "un = vec_resize empty_layer (length szs - 1) ?U"
  have un: "un = take (floorlog 2 k - 1) ?U"
    using mono lenU unfolding un_def lszs by (simp add: vec_resize_def)
  have un_len: "length un = floorlog 2 k - 1" using un mono lenU by simp
  have un_nth: "\<And>j. j < length un \<Longrightarrow> un ! j = ?U ! j" using un by simp
  have szs_in: "\<And>j. j < length un \<Longrightarrow> j + 1 < length szs"
  proof -
    fix j assume "j < length un"
    then have "j + 1 < floorlog 2 k" using un_len by simp
    then show "j + 1 < length szs" by (cases "k = 0") (simp_all add: szs_len floorlog_0)
  qed
  have szs_nth: "\<And>j. j < length un \<Longrightarrow> szs ! (j + 1) = k div 2 ^ (j + 1)"
  proof -
    fix j assume "j < length un"
    from szs_in [OF this] show "szs ! (j + 1) = k div 2 ^ (j + 1)"
      unfolding szs_def by (rule sizes_nth)
  qed
  have "k \<le> vSize (layer0 m)" using lt by (simp add: mmr_size_def layer_size_def)
  from resize_shrink [OF l0 this, of ?d] obtain l0' where
    r0: "resize ?d (layer0 m) k = Some l0'" and l0'_rd: "layer_rd l0'"
    and l0'_list: "layer_list l0' = take k (layer_list (layer0 m))"
    by blast
  have each: "\<And>j. j < length un \<Longrightarrow>
      \<exists>l. resize ?d (un ! j) (szs ! (j + 1)) = Some l \<and> layer_rd l
          \<and> layer_list l = take (k div 2 ^ (j + 1)) (layer_list (?U ! j))"
  proof -
    fix j assume j: "j < length un"
    then have jU: "j < length ?U" using un_len mono lenU by simp
    have "k div 2 ^ (j + 1) \<le> ?n div 2 ^ (j + 1)" using lt by (intro div_le_mono) simp
    then have le: "k div 2 ^ (j + 1) \<le> vSize (?U ! j)" using szU [OF jU] by simp
    have "layer_rd (?U ! j)" using ups jU by simp
    from resize_shrink [OF this le, of ?d] obtain l where
      "resize ?d (?U ! j) (k div 2 ^ (j + 1)) = Some l" "layer_rd l"
      "layer_list l = take (k div 2 ^ (j + 1)) (layer_list (?U ! j))"
      by blast
    then have "resize ?d (un ! j) (szs ! (j + 1)) = Some l \<and> layer_rd l
          \<and> layer_list l = take (k div 2 ^ (j + 1)) (layer_list (?U ! j))"
      by (simp only: un_nth [OF j] szs_nth [OF j])
    then show "\<exists>l. resize ?d (un ! j) (szs ! (j + 1)) = Some l \<and> layer_rd l
          \<and> layer_list l = take (k div 2 ^ (j + 1)) (layer_list (?U ! j))" ..
  qed
  have pre: "\<And>j. 0 \<le> j \<Longrightarrow> j < length un \<Longrightarrow>
             j + 1 < length szs \<and> (\<exists>l. resize ?d (un ! j) (szs ! (j + 1)) = Some l)"
  proof -
    fix j :: nat assume j: "j < length un"
    from each [OF j] obtain l where "resize ?d (un ! j) (szs ! (j + 1)) = Some l" by blast
    with szs_in [OF j] show "j + 1 < length szs \<and> (\<exists>l. resize ?d (un ! j) (szs ! (j + 1)) = Some l)"
      by blast
  qed
  have "\<exists>un'. Truncate_loop ?d szs 0 un = Some un' \<and> length un' = length un
           \<and> (\<forall>j < 0. un' ! j = un ! j)
           \<and> (\<forall>j. 0 \<le> j \<longrightarrow> j < length un \<longrightarrow> resize ?d (un ! j) (szs ! (j + 1)) = Some (un' ! j))"
    by (rule Truncate_loop_ok [OF pre])
  then obtain un' where
    lp: "Truncate_loop ?d szs 0 un = Some un'" and len': "length un' = length un"
    and res: "\<forall>j. 0 \<le> j \<longrightarrow> j < length un \<longrightarrow> resize ?d (un ! j) (szs ! (j + 1)) = Some (un' ! j)"
    by (elim exE conjE)
  have un'_rd: "\<And>j. j < length un' \<Longrightarrow> layer_rd (un' ! j)
       \<and> layer_list (un' ! j) = take (k div 2 ^ (j + 1)) (layer_list (?U ! j))"
  proof -
    fix j assume "j < length un'"
    then have j: "j < length un" using len' by simp
    from res j have "resize ?d (un ! j) (szs ! (j + 1)) = Some (un' ! j)" by simp
    with each [OF j] show "layer_rd (un' ! j)
       \<and> layer_list (un' ! j) = take (k div 2 ^ (j + 1)) (layer_list (?U ! j))" by auto
  qed
  define m' where "m' = \<lparr> upperNodes = un', layer0 = l0' \<rparr>"
  have tr: "Truncate ops m k = Some m'"
  proof -
    have c: "(k < mmr_size m) = True" "(if mmr_size m < k then mmr_size m else k) = k"
      using lt by simp_all
    show ?thesis
      by (simp only: Truncate_def Let_def c if_True szs_def [symmetric] szs0 r0 option.case
          un_def [symmetric] lp m'_def)
  qed
  have lev0: "lev m' 0 = take k (lev m 0)" using l0'_list by (simp add: lev_def m'_def)
  have sz': "mmr_size m' = k" using lev0 lt by (simp add: mmr_size_lev)
  have levS: "\<And>j. j < length un' \<Longrightarrow> lev m' (Suc j) = take (k div 2 ^ (j + 1)) (lev m (Suc j))"
  proof -
    fix j assume j: "j < length un'"
    then have "j < length ?U" using len' un_len mono lenU by simp
    then show "lev m' (Suc j) = take (k div 2 ^ (j + 1)) (lev m (Suc j))"
      using un'_rd [OF j] j by (simp add: lev_def m'_def)
  qed
  have lev_all: "\<And>j. j \<le> length un' \<Longrightarrow> lev m' j = take (k div 2 ^ j) (lev m j)"
  proof -
    fix j assume j: "j \<le> length un'"
    show "lev m' j = take (k div 2 ^ j) (lev m j)"
    proof (cases j)
      case 0
      then show ?thesis using lev0 by simp
    next
      case (Suc i)
      then show ?thesis using levS [of i] j by simp
    qed
  qed
  have shape': "mmr_shape ops m'"
    unfolding mmr_shape_def sz'
  proof (intro conjI allI impI)
    show "k < 2 ^ 32" using lt n32 by simp
    show "length (upperNodes m') = floorlog 2 k - 1" using len' un_len by (simp add: m'_def)
  next
    fix h assume "h < length (upperNodes m')"
    then have h: "h < length un'" by (simp add: m'_def)
    then have hU: "h < length ?U" using len' un_len mono lenU by simp
    have "length (layer_list (un' ! h)) = k div 2 ^ (h + 1)"
    proof -
      have "k div 2 ^ (h + 1) \<le> ?n div 2 ^ (h + 1)" using lt by (intro div_le_mono) simp
      then show ?thesis using un'_rd [OF h] szU [OF hU] by simp
    qed
    then show "vSize (upperNodes m' ! h) = k div 2 ^ (h + 1)" by (simp add: m'_def)
    have "parents_of ops (take (k div 2 ^ h) (lev m h)) (take (k div 2 ^ (h + 1)) (lev m (h + 1)))"
      using paU [OF hU] by (rule parents_of_take) (simp only: div_pow_Suc order_refl)
    then show "parents_of ops (lev m' h) (lev m' (h + 1))"
      using lev_all [of h] lev_all [of "h + 1"] h by simp
  qed
  have "mmr_rd ops m'"
    unfolding mmr_rd_def
  proof (intro conjI ballI)
    show "layer_rd (layer0 m')" using l0'_rd by (simp add: m'_def)
    show "mmr_shape ops m'" by (rule shape')
  next
    fix l assume "l \<in> set (upperNodes m')"
    then obtain j where "j < length un'" "l = un' ! j" by (auto simp: m'_def in_set_conv_nth)
    then show "layer_rd l" using un'_rd by simp
  qed
  with tr lev0 show ?thesis by blast
qed

lemma Truncate_noop: "mmr_size m \<le> k \<Longrightarrow> Truncate ops m k = Some m"
  by (simp add: Truncate_def Let_def)

lemma Add_all_append:
  "Add_all ops m (xs @ ys) = (case Add_all ops m xs of None \<Rightarrow> None | Some m1 \<Rightarrow> Add_all ops m1 ys)"
  by (induction xs arbitrary: m) (auto split: option.splits)


lemma built_ok:
  assumes "Add_all ops empty_mmr xs = Some m" and "length xs < 2 ^ 32"
  shows "mmr_ok ops m" and "lev m 0 = xs"
proof -
  have b: "mmr_size (empty_mmr :: 'a CMerkleMountainRange) + length xs < 2 ^ 32"
    using assms(2) by (simp add: mmr_size_lev lev_empty)
  from Add_all_ok [OF mmr_ok_empty b, of ops] assms(1)
  show "mmr_ok ops m" and "lev m 0 = xs" by (simp_all add: lev_empty)
qed

text \<open>
  C7. For a range built from fewer than \<open>2 ^ 32\<close> leaves and \<open>k\<close> not above its size,
  \<^verbatim>\<open>Truncate(k)\<close> returns, a second \<^verbatim>\<open>Truncate(k)\<close> changes nothing, and the result has
  the size, the height and, at every height and index, the node \<^verbatim>\<open>GetNode\<close> returns of
  the fresh range built from the first \<open>k\<close> leaves. \<^verbatim>\<open>Truncate\<close> to the current size or
  more changes nothing.
\<close>

theorem Truncate_twice_is_fresh:
  assumes built: "Add_all ops empty_mmr xs = Some m" and len: "length xs < 2 ^ 32"
    and k: "k \<le> length xs"
  shows "\<exists>t f. Truncate ops m k = Some t \<and> Truncate ops t k = Some t
           \<and> Add_all ops empty_mmr (take k xs) = Some f
           \<and> mmr_size t = k \<and> mmr_size f = k \<and> height t = height f
           \<and> (\<forall>h i. GetNode ops t h i = GetNode ops f h i)
           \<and> (\<forall>j. mmr_size m \<le> j \<longrightarrow> Truncate ops m j = Some m)"
proof -
  have ok: "mmr_ok ops m" and lev0: "lev m 0 = xs" using built len by (rule built_ok)+
  have sz: "mmr_size m = length xs" using lev0 by (simp add: mmr_size_lev)
  have "Add_all ops empty_mmr (take k xs @ drop k xs) = Some m" using built by simp
  then obtain f where f: "Add_all ops empty_mmr (take k xs) = Some f"
    unfolding Add_all_append by (cases "Add_all ops empty_mmr (take k xs)") auto
  have lenk: "length (take k xs) < 2 ^ 32" using len by simp
  have okf: "mmr_ok ops f" and levf: "lev f 0 = take k xs" using f lenk by (rule built_ok)+
  have szf: "mmr_size f = k" using levf k by (simp add: mmr_size_lev)
  obtain t where t: "Truncate ops m k = Some t" and rdt: "mmr_rd ops t"
    and levt: "lev t 0 = take k xs"
  proof (cases "k < mmr_size m")
    case True
    from Truncate_ok [OF mmr_ok_rd [OF ok] True] lev0 that show ?thesis by auto
  next
    case False
    then have "Truncate ops m k = Some m" by (simp add: Truncate_noop)
    moreover have "lev m 0 = take k xs" using False sz lev0 by simp
    ultimately show ?thesis using that mmr_ok_rd [OF ok] by blast
  qed
  have szt: "mmr_size t = k" using levt k by (simp add: mmr_size_lev)
  have again: "Truncate ops t k = Some t" using szt by (simp add: Truncate_noop)
  have sht: "mmr_shape ops t" using rdt by (simp add: mmr_rd_def)
  have shf: "mmr_shape ops f" using okf by (simp add: mmr_ok_def)
  have levs: "\<And>h. lev t h = lev f h"
    using sht shf by (rule shape_unique) (simp add: levt levf)
  have nodes: "\<forall>h i. GetNode ops t h i = GetNode ops f h i"
    using GetNode_rd [OF rdt] GetNode_rd [OF mmr_ok_rd [OF okf]] levs by (simp add: node_at_def)
  have hts: "height t = height f"
    using height_shape [OF sht] height_shape [OF shf] szt szf by simp
  have noop: "\<forall>j. mmr_size m \<le> j \<longrightarrow> Truncate ops m j = Some m"
    by (simp add: Truncate_noop)
  from t again f szt szf hts nodes noop show ?thesis by blast
qed

lemma five_leaves:
  "Add_all (CDefaultMMRNode toy_hash) empty_mmr
     [CMMRNode 1, CMMRNode 2, CMMRNode 3, CMMRNode 4, CMMRNode 5]
   = Some \<lparr> upperNodes = [\<lparr> vSize = 2, nodes = [[CMMRNode 20, CMMRNode 36]] \<rparr>,
                          \<lparr> vSize = 1, nodes = [[CMMRNode 247]] \<rparr>],
            layer0 = \<lparr> vSize = 5, nodes = [[CMMRNode 1, CMMRNode 2, CMMRNode 3, CMMRNode 4,
                                           CMMRNode 5]] \<rparr> \<rparr>"
  by (simp add: mmr_eval plain_eval)

theorem Truncate_twice_is_fresh_witness:
  "\<exists>t f. Truncate (CDefaultMMRNode toy_hash)
            \<lparr> upperNodes = [\<lparr> vSize = 2, nodes = [[CMMRNode 20, CMMRNode 36]] \<rparr>,
                            \<lparr> vSize = 1, nodes = [[CMMRNode 247]] \<rparr>],
              layer0 = \<lparr> vSize = 5, nodes = [[CMMRNode 1, CMMRNode 2, CMMRNode 3, CMMRNode 4,
                                             CMMRNode 5]] \<rparr> \<rparr> 3 = Some t
        \<and> Truncate (CDefaultMMRNode toy_hash) t 3 = Some t
        \<and> Add_all (CDefaultMMRNode toy_hash) empty_mmr [CMMRNode 1, CMMRNode 2, CMMRNode 3] = Some f
        \<and> mmr_size t = 3 \<and> mmr_size f = 3 \<and> height t = height f
        \<and> GetNode (CDefaultMMRNode toy_hash) t 1 0 = GetNode (CDefaultMMRNode toy_hash) f 1 0
        \<and> GetNode (CDefaultMMRNode toy_hash) f 1 0 = Some (CMMRNode 20)"
proof -
  let ?xs = "[CMMRNode 1, CMMRNode 2, CMMRNode 3, CMMRNode 4, CMMRNode 5]"
  have len: "length ?xs < 2 ^ 32" and k: "(3::nat) \<le> length ?xs" by simp_all
  from Truncate_twice_is_fresh [OF five_leaves len k] obtain t f where
    a: "Truncate (CDefaultMMRNode toy_hash)
            \<lparr> upperNodes = [\<lparr> vSize = 2, nodes = [[CMMRNode 20, CMMRNode 36]] \<rparr>,
                            \<lparr> vSize = 1, nodes = [[CMMRNode 247]] \<rparr>],
              layer0 = \<lparr> vSize = 5, nodes = [[CMMRNode 1, CMMRNode 2, CMMRNode 3, CMMRNode 4,
                                             CMMRNode 5]] \<rparr> \<rparr> 3 = Some t"
    and b: "Truncate (CDefaultMMRNode toy_hash) t 3 = Some t"
    and c: "Add_all (CDefaultMMRNode toy_hash) empty_mmr (take 3 ?xs) = Some f"
    and d: "mmr_size t = 3" "mmr_size f = 3" "height t = height f"
    and e: "\<forall>h i. GetNode (CDefaultMMRNode toy_hash) t h i = GetNode (CDefaultMMRNode toy_hash) f h i"
    by blast
  have c': "Add_all (CDefaultMMRNode toy_hash) empty_mmr [CMMRNode 1, CMMRNode 2, CMMRNode 3] = Some f"
    using c by simp
  with three_leaves have "f = \<lparr> upperNodes = [\<lparr> vSize = 1, nodes = [[CMMRNode 20]] \<rparr>],
              layer0 = \<lparr> vSize = 3, nodes = [[CMMRNode 1, CMMRNode 2, CMMRNode 3]] \<rparr> \<rparr>"
    by simp
  then have g: "GetNode (CDefaultMMRNode toy_hash) f 1 0 = Some (CMMRNode 20)"
    by (simp add: mmr_eval)
  from a b c' d e g show ?thesis by blast
qed

end
